theory Spec2Isabelle
  imports Main "HOL-Library.Multiset" "HOL-Library.List_Lexorder" "HOL-Library.Product_Lexorder"
begin

section \<open>Strings and numbers of the host language\<close>

text \<open>
  A string is a list of code units; the model covers the code units below 256, which is
  what \<^typ>\<open>char\<close> holds. \<open>trim\<close> strips the white space of that range from both ends,
  \<open>toLowerCase\<close> maps the capital letters of that range to their small letters.
\<close>

definition isWhiteSpace :: "char \<Rightarrow> bool" where
  "isWhiteSpace c = ((of_char c :: nat) \<in> {9, 10, 11, 12, 13, 32, 160})"

definition trim :: "string \<Rightarrow> string" where
  "trim s = rev (dropWhile isWhiteSpace (rev (dropWhile isWhiteSpace s)))"

definition toLowerCaseChar :: "char \<Rightarrow> char" where
  "toLowerCaseChar c =
     (let n = (of_char c :: nat)
      in if (65 \<le> n \<and> n \<le> 90) \<or> (192 \<le> n \<and> n \<le> 222 \<and> n \<noteq> 215)
         then char_of (n + 32) else c)"

definition toLowerCase :: "string \<Rightarrow> string" where
  "toLowerCase s = map toLowerCaseChar s"

text \<open>\<open>t.includes(s)\<close>: \<open>s\<close> occurs in \<open>t\<close> as a contiguous run.\<close>

fun includes_str :: "string \<Rightarrow> string \<Rightarrow> bool" where
  "includes_str [] s = (s = [])"
| "includes_str (c # cs) s = (take (length s) (c # cs) = s \<or> includes_str cs s)"

text \<open>
  An optional string field is \<open>None\<close> when the property is \<open>undefined\<close>. In a condition
  the source reads such a value as true exactly when it is a string that is not empty.
\<close>

definition truthy :: "string option \<Rightarrow> bool" where
  "truthy v = (case v of None \<Rightarrow> False | Some s \<Rightarrow> s \<noteq> [])"

text \<open>\<open>v || ''\<close> on an optional string.\<close>

definition orEmpty :: "string option \<Rightarrow> string" where
  "orEmpty v = (case v of None \<Rightarrow> [] | Some s \<Rightarrow> s)"

text \<open>
  A number of the host is an IEEE double. The numbers of this program that the model
  follows hold integers (\<open>parseInt(...) || 1\<close>, positions of a loop), so a number is
  modelled by the integer it holds. The infinities, which \<open>parseInt\<close> returns only for
  a string of more than 308 digits, are outside the model.

  Every integer up to \<open>2^53\<close> in absolute value is a double. A larger integer is
  rounded to the nearest double, a tie going to the even significand: with \<open>q\<close> the
  spacing of the doubles at \<open>x\<close>, \<open>m\<close> the significand and \<open>r\<close> the remainder.
\<close>

fun bitLength :: "nat \<Rightarrow> nat" where
  "bitLength n = (if n = 0 then 0 else Suc (bitLength (n div 2)))"

declare bitLength.simps [simp del]

definition roundNat :: "nat \<Rightarrow> nat" where
  "roundNat x =
     (if x \<le> 2 ^ 53 then x
      else let q = 2 ^ (bitLength x - 53); m = x div q; r = x mod q
           in if 2 * r < q then m * q
              else if q < 2 * r then (m + 1) * q
              else if even m then m * q else (m + 1) * q)"

definition roundDouble :: "int \<Rightarrow> int" where
  "roundDouble x = (if x < 0 then - int (roundNat (nat (- x))) else int (roundNat (nat x)))"

text \<open>\<open>a + b\<close> on numbers: the exact sum, rounded.\<close>

definition jsAdd :: "int \<Rightarrow> int \<Rightarrow> int" where
  "jsAdd a b = roundDouble (a + b)"

text \<open>The decimal digits of a natural number.\<close>

definition digitChar :: "nat \<Rightarrow> char" where
  "digitChar d = ''0123456789'' ! d"

fun decimal :: "nat \<Rightarrow> string" where
  "decimal n = (if n < 10 then [digitChar n] else decimal (n div 10) @ [digitChar (n mod 10)])"

declare decimal.simps [simp del]

text \<open>
  \<open>Number.prototype.toString\<close> (ECMAScript, Number::toString with radix 10) takes
  integers \<open>n\<close>, \<open>k\<close> and \<open>s\<close> with \<open>s\<close> of \<open>k\<close> digits, \<open>s * 10^(n - k)\<close> rounding
  to the number and \<open>k\<close> as small as possible; of several such \<open>s\<close> the one closest
  to the number, the even one of two equally close. It prints the digits of \<open>s\<close>
  followed by \<open>n - k\<close> zeros when \<open>n \<le> 21\<close> and in exponent notation otherwise. Up
  to \<open>2^53\<close> neighbouring integers are different doubles, so the result is the decimal
  digits of the number itself. Above, \<open>candidates x k\<close> are the pairs \<open>(s, p)\<close> with
  \<open>p = n - k\<close> to choose from.
\<close>

definition candidates :: "nat \<Rightarrow> nat \<Rightarrow> (nat \<times> nat) list" where
  "candidates x k =
     (let nx = length (decimal x)
      in filter (\<lambda>(s, p). 10 ^ (k - 1) \<le> s \<and> s < 10 ^ k \<and> roundNat (s * 10 ^ p) = x)
           (concat (map (\<lambda>p. [(x div 10 ^ p, p), (x div 10 ^ p + 1, p)])
                      [nx - k, nx - k + 1])))"

definition distance :: "nat \<Rightarrow> nat \<times> nat \<Rightarrow> nat" where
  "distance x c = (let v = fst c * 10 ^ snd c in if v \<le> x then x - v else v - x)"

fun closest :: "nat \<Rightarrow> (nat \<times> nat) list \<Rightarrow> (nat \<times> nat) option" where
  "closest x [] = None"
| "closest x (c # cs) =
     (case closest x cs of
        None \<Rightarrow> Some c
      | Some d \<Rightarrow> if distance x c < distance x d \<or> (distance x c = distance x d \<and> even (fst c))
                  then Some c else Some d)"

fun shortest :: "nat \<Rightarrow> nat list \<Rightarrow> (nat \<times> nat) option" where
  "shortest x [] = None"
| "shortest x (k # ks) =
     (case closest x (candidates x k) of None \<Rightarrow> shortest x ks | Some c \<Rightarrow> Some c)"

definition numberDigits :: "nat \<Rightarrow> string" where
  "numberDigits x =
     (if x \<le> 2 ^ 53 then decimal x
      else case shortest x [1..<18] of
             None \<Rightarrow> decimal x
           | Some (s, p) \<Rightarrow>
               (let ds = decimal s; k = length ds; n = k + p
                in if n \<le> 21 then ds @ replicate p CHR ''0''
                   else if k = 1 then ds @ ''e+'' @ decimal (n - 1)
                   else hd ds # CHR ''.'' # tl ds @ ''e+'' @ decimal (n - 1)))"

definition toString :: "int \<Rightarrow> string" where
  "toString i = (if i < 0 then CHR ''-'' # numberDigits (nat (- i)) else numberDigits (nat i))"

section \<open>Data model (types.ts)\<close>

record Book =
  book_id :: string
  title :: string
  author :: string
  description :: string
  releaseDate :: string
  genre :: string
  language :: "string option"
  seriesTitle :: "string option"
  seriesIndex :: "string option"
  seriesColor :: "string option"
  book_group :: "string option"
  groupColor :: "string option"
  status :: "string option"
  fileName :: string
  fileType :: string
  fileSize :: nat
  addedAt :: int
  coverColor :: string
  fileData :: "nat list option"

datatype SortOption = Recent | Title | Author | Series | Group

section \<open>Sorting an array with a comparator\<close>

text \<open>
  \<open>Array.prototype.sort(cmp)\<close> is stable: it puts \<open>a\<close> before \<open>b\<close> when
  \<open>cmp(a, b) < 0\<close> and keeps the order of elements that compare as equal. The model is
  the stable insertion sort; for a comparator that is a consistent ordering every stable
  sort returns the same array.
\<close>

fun insertBy :: "('a \<Rightarrow> 'a \<Rightarrow> int) \<Rightarrow> 'a \<Rightarrow> 'a list \<Rightarrow> 'a list" where
  "insertBy cmp x [] = [x]"
| "insertBy cmp x (y # ys) = (if cmp x y \<le> 0 then x # y # ys else y # insertBy cmp x ys)"

definition sortBy :: "('a \<Rightarrow> 'a \<Rightarrow> int) \<Rightarrow> 'a list \<Rightarrow> 'a list" where
  "sortBy cmp xs = foldr (insertBy cmp) xs []"

section \<open>Record store (services/db.ts)\<close>

text \<open>
  The object store \<open>books\<close> is created with \<open>keyPath: 'id'\<close>: it holds at most one
  record per id and hands its records out in ascending key order. It is modelled as the
  list of its records in that order; string keys compare code unit by code unit.
\<close>

fun keyLess :: "string \<Rightarrow> string \<Rightarrow> bool" where
  "keyLess [] [] = False"
| "keyLess [] (y # ys) = True"
| "keyLess (x # xs) [] = False"
| "keyLess (x # xs) (y # ys) =
     (if (of_char x :: nat) < of_char y then True
      else if (of_char x :: nat) = of_char y then keyLess xs ys else False)"

fun store_put :: "Book \<Rightarrow> Book list \<Rightarrow> Book list" where
  "store_put r [] = [r]"
| "store_put r (x # xs) =
     (if book_id r = book_id x then r # xs
      else if keyLess (book_id r) (book_id x) then r # x # xs
      else x # store_put r xs)"

definition store_delete :: "string \<Rightarrow> Book list \<Rightarrow> Book list" where
  "store_delete k xs = filter (\<lambda>b. book_id b \<noteq> k) xs"

definition store_get :: "string \<Rightarrow> Book list \<Rightarrow> Book option" where
  "store_get k xs = find (\<lambda>b. book_id b = k) xs"

text \<open>
  The settings store has no key path: \<open>put(value, key)\<close> and \<open>get(key)\<close> on a map.
\<close>

record IDBDatabase =
  books_store :: "Book list"
  settings_store :: "string \<rightharpoonup> string"

text \<open>
  \<open>openDB\<close> rejects when the host has no IndexedDB or cannot open the database. The
  service keeps the promise; every operation awaits it first, so it rejects with the
  same reason when the database did not open.
\<close>

datatype error = NotSupported | CouldNotOpen

record DBService =
  dbPromise :: "error + IDBDatabase"

definition openDB :: "bool \<Rightarrow> IDBDatabase option \<Rightarrow> error + IDBDatabase" where
  "openDB hasIndexedDB opened =
     (if \<not> hasIndexedDB then Inl NotSupported
      else case opened of None \<Rightarrow> Inl CouldNotOpen | Some db \<Rightarrow> Inr db)"

definition getAllBooks :: "DBService \<Rightarrow> error + Book list" where
  "getAllBooks svc =
     (case dbPromise svc of
        Inl e \<Rightarrow> Inl e
      | Inr db \<Rightarrow> Inr (sortBy (\<lambda>a b. addedAt b - addedAt a) (books_store db)))"

definition addBook :: "Book \<Rightarrow> DBService \<Rightarrow> error + DBService" where
  "addBook book svc =
     (case dbPromise svc of
        Inl e \<Rightarrow> Inl e
      | Inr db \<Rightarrow> Inr (svc\<lparr>dbPromise := Inr (db\<lparr>books_store := store_put book (books_store db)\<rparr>)\<rparr>))"

definition updateBook :: "Book \<Rightarrow> DBService \<Rightarrow> error + DBService" where
  "updateBook book svc = addBook book svc"

definition deleteBook :: "string \<Rightarrow> DBService \<Rightarrow> error + DBService" where
  "deleteBook k svc =
     (case dbPromise svc of
        Inl e \<Rightarrow> Inl e
      | Inr db \<Rightarrow> Inr (svc\<lparr>dbPromise := Inr (db\<lparr>books_store := store_delete k (books_store db)\<rparr>)\<rparr>))"

definition getSetting :: "string \<Rightarrow> DBService \<Rightarrow> error + string option" where
  "getSetting k svc =
     (case dbPromise svc of Inl e \<Rightarrow> Inl e | Inr db \<Rightarrow> Inr (settings_store db k))"

definition saveSetting :: "string \<Rightarrow> string \<Rightarrow> DBService \<Rightarrow> error + DBService" where
  "saveSetting k v svc =
     (case dbPromise svc of
        Inl e \<Rightarrow> Inl e
      | Inr db \<Rightarrow> Inr (svc\<lparr>dbPromise := Inr (db\<lparr>settings_store := (settings_store db)(k \<mapsto> v)\<rparr>)\<rparr>))"

text \<open>The record stored under an id, read through the service.\<close>

definition storedBook :: "string \<Rightarrow> DBService \<Rightarrow> Book option" where
  "storedBook k svc =
     (case dbPromise svc of Inl e \<Rightarrow> None | Inr db \<Rightarrow> store_get k (books_store db))"

section \<open>Library aggregation (App.tsx)\<close>

text \<open>
  A \<open>Map\<close> keeps its entries in the order in which their keys were first set; setting
  a key that is present replaces the value in place.
\<close>

fun map_set :: "'k \<Rightarrow> 'v \<Rightarrow> ('k \<times> 'v) list \<Rightarrow> ('k \<times> 'v) list" where
  "map_set k v [] = [(k, v)]"
| "map_set k v ((k', v') # m) = (if k' = k then (k', v) # m else (k', v') # map_set k v m)"

text \<open>
  A group of versions is an array that \<open>groupedLibrary\<close> creates on the first record of
  a key and only ever pushes to, so it always has a first element. The type keeps that
  element, the representative \<open>group[0]\<close>, apart from the records pushed after it.
\<close>

datatype BookGroup = BookGroup (representative: Book) (others: "Book list")

definition variants :: "BookGroup \<Rightarrow> Book list" where
  "variants g = representative g # others g"

definition push :: "BookGroup \<Rightarrow> Book \<Rightarrow> BookGroup" where
  "push g book = BookGroup (representative g) (others g @ [book])"

definition identityKey :: "Book \<Rightarrow> string" where
  "identityKey book = toLowerCase (trim (title book)) @ ''|'' @ toLowerCase (trim (author book))"

definition groupsStep :: "Book \<Rightarrow> (string \<times> BookGroup) list \<Rightarrow> (string \<times> BookGroup) list" where
  "groupsStep book groups =
     (let key = identityKey book
      in case map_of groups key of
           None \<Rightarrow> map_set key (BookGroup book []) groups
         | Some g \<Rightarrow> map_set key (push g book) groups)"

definition groupedLibrary :: "Book list \<Rightarrow> BookGroup list" where
  "groupedLibrary books = map snd (fold groupsStep books [])"

record GroupFacet =
  color :: "string option"
  count :: nat

definition facetsStep :: "Book \<Rightarrow> (string \<times> GroupFacet) list \<Rightarrow> (string \<times> GroupFacet) list" where
  "facetsStep b m =
     (case book_group b of
        None \<Rightarrow> m
      | Some g \<Rightarrow>
          if g \<noteq> [] \<and> trim g \<noteq> [] then
            (let existing = map_of m g
             in map_set g
                  \<lparr>color = (if truthy (groupColor b) then groupColor b
                            else case existing of None \<Rightarrow> None | Some e \<Rightarrow> color e),
                   count = (case existing of None \<Rightarrow> 0 | Some e \<Rightarrow> count e) + 1\<rparr> m)
          else m)"

definition uniqueGroups :: "Book list \<Rightarrow> (string \<times> GroupFacet) list" where
  "uniqueGroups books =
     sortBy (\<lambda>a b. int (count (snd b)) - int (count (snd a))) (fold facetsStep books [])"

text \<open>
  \<open>localeCompare\<close> is the host's collation, not code of the application. The functions
  below take it as two parameters: \<open>lc\<close> for the plain call and \<open>lcn\<close> for the call
  with \<open>{numeric: true, sensitivity: 'base'}\<close>.
\<close>

definition matchesSearch :: "string \<Rightarrow> Book \<Rightarrow> bool" where
  "matchesSearch searchQuery book =
     (includes_str (toLowerCase (title book)) (toLowerCase searchQuery)
      \<or> includes_str (toLowerCase (author book)) (toLowerCase searchQuery)
      \<or> (case seriesTitle book of None \<Rightarrow> False
          | Some s \<Rightarrow> s \<noteq> [] \<and> includes_str (toLowerCase s) (toLowerCase searchQuery))
      \<or> (case book_group book of None \<Rightarrow> False
          | Some g \<Rightarrow> g \<noteq> [] \<and> includes_str (toLowerCase g) (toLowerCase searchQuery)))"

definition matchesGroup :: "string option \<Rightarrow> Book \<Rightarrow> bool" where
  "matchesGroup filterGroup book =
     (if truthy filterGroup then book_group book = filterGroup else True)"

definition compareTitle :: "(string \<Rightarrow> string \<Rightarrow> int) \<Rightarrow> BookGroup \<Rightarrow> BookGroup \<Rightarrow> int" where
  "compareTitle lc a b = lc (title (representative a)) (title (representative b))"

definition compareAuthor :: "(string \<Rightarrow> string \<Rightarrow> int) \<Rightarrow> BookGroup \<Rightarrow> BookGroup \<Rightarrow> int" where
  "compareAuthor lc a b = lc (author (representative a)) (author (representative b))"

definition compareSeries ::
  "(string \<Rightarrow> string \<Rightarrow> int) \<Rightarrow> (string \<Rightarrow> string \<Rightarrow> int) \<Rightarrow> BookGroup \<Rightarrow> BookGroup \<Rightarrow> int" where
  "compareSeries lc lcn a b =
     (let bookA = representative a; bookB = representative b;
          sA = orEmpty (seriesTitle bookA); sB = orEmpty (seriesTitle bookB)
      in if sA = [] \<and> sB \<noteq> [] then 1
         else if sA \<noteq> [] \<and> sB = [] then - 1
         else if sA = [] \<and> sB = [] then lc (title bookA) (title bookB)
         else let titleCompare = lcn sA sB
              in if titleCompare \<noteq> 0 then titleCompare
                 else lcn (orEmpty (seriesIndex bookA)) (orEmpty (seriesIndex bookB)))"

text \<open>\<open>v || 'zzz'\<close> on an optional string.\<close>

definition orSentinel :: "string option \<Rightarrow> string" where
  "orSentinel v = (if truthy v then orEmpty v else ''zzz'')"

definition compareGroup :: "(string \<Rightarrow> string \<Rightarrow> int) \<Rightarrow> BookGroup \<Rightarrow> BookGroup \<Rightarrow> int" where
  "compareGroup lc a b =
     (let gA = orSentinel (book_group (representative a));
          gB = orSentinel (book_group (representative b))
      in if gA \<noteq> gB then lc gA gB
         else lc (title (representative a)) (title (representative b)))"

text \<open>\<open>Math.max(...a.map(x => x.addedAt))\<close> on a group.\<close>

definition maxTime :: "BookGroup \<Rightarrow> int" where
  "maxTime a = foldr max (map addedAt (others a)) (addedAt (representative a))"

definition compareRecent :: "BookGroup \<Rightarrow> BookGroup \<Rightarrow> int" where
  "compareRecent a b = maxTime b - maxTime a"

definition filteredAndSortedGroups ::
  "(string \<Rightarrow> string \<Rightarrow> int) \<Rightarrow> (string \<Rightarrow> string \<Rightarrow> int) \<Rightarrow> BookGroup list \<Rightarrow> string
     \<Rightarrow> string option \<Rightarrow> SortOption \<Rightarrow> BookGroup list" where
  "filteredAndSortedGroups lc lcn groupedLib searchQuery filterGroup sortOption =
     (let result = filter (\<lambda>g. matchesSearch searchQuery (representative g)
                              \<and> matchesGroup filterGroup (representative g)) groupedLib
      in case sortOption of
           Title \<Rightarrow> sortBy (compareTitle lc) result
         | Author \<Rightarrow> sortBy (compareAuthor lc) result
         | Series \<Rightarrow> sortBy (compareSeries lc lcn) result
         | Group \<Rightarrow> sortBy (compareGroup lc) result
         | Recent \<Rightarrow> sortBy compareRecent result)"

section \<open>Single-record edit with colour propagation (App.tsx, handleUpdateBook)\<close>

text \<open>Awaiting a list of writes one after the other; the first rejection ends the run.\<close>

fun updateBooks :: "Book list \<Rightarrow> DBService \<Rightarrow> error + DBService" where
  "updateBooks [] svc = Inr svc"
| "updateBooks (b # bs) svc =
     (case updateBook b svc of Inl e \<Rightarrow> Inl e | Inr svc' \<Rightarrow> updateBooks bs svc')"

text \<open>
  The writes that the group pass and the series pass push, in the order of \<open>books\<close>.
  Both passes read the records from the \<open>books\<close> held by the component, not from the
  store.
\<close>

definition groupPropagation :: "Book \<Rightarrow> Book list \<Rightarrow> Book list" where
  "groupPropagation updatedBook books =
     (case book_group updatedBook of
        None \<Rightarrow> []
      | Some g \<Rightarrow>
          if g \<noteq> [] \<and> trim g \<noteq> [] then
            (let groupBooks = filter (\<lambda>b. book_group b = book_group updatedBook
                                          \<and> book_id b \<noteq> book_id updatedBook) books
             in if groupBooks \<noteq> [] \<and> truthy (groupColor updatedBook)
                then map (\<lambda>b. b\<lparr>groupColor := groupColor updatedBook\<rparr>)
                       (filter (\<lambda>b. groupColor b \<noteq> groupColor updatedBook) groupBooks)
                else [])
          else [])"

definition seriesPropagation :: "Book \<Rightarrow> Book list \<Rightarrow> Book list" where
  "seriesPropagation updatedBook books =
     (case seriesTitle updatedBook of
        None \<Rightarrow> []
      | Some s \<Rightarrow>
          if s \<noteq> [] \<and> trim s \<noteq> [] then
            (let seriesBooks = filter (\<lambda>b. seriesTitle b = seriesTitle updatedBook
                                           \<and> book_id b \<noteq> book_id updatedBook) books
             in if seriesBooks \<noteq> [] \<and> truthy (seriesColor updatedBook)
                then map (\<lambda>b. b\<lparr>seriesColor := seriesColor updatedBook\<rparr>)
                       (filter (\<lambda>b. seriesColor b \<noteq> seriesColor updatedBook) seriesBooks)
                else [])
          else [])"

text \<open>
  The edited record is written first; the pushed writes reach the store in the order
  in which they were pushed. The result is the service after the last write.
\<close>

definition handleUpdateBook :: "Book \<Rightarrow> Book list \<Rightarrow> DBService \<Rightarrow> error + DBService" where
  "handleUpdateBook updatedBook books svc =
     (case updateBook updatedBook svc of
        Inl e \<Rightarrow> Inl e
      | Inr svc' \<Rightarrow>
          updateBooks (groupPropagation updatedBook books @ seriesPropagation updatedBook books) svc')"

section \<open>Bulk edit (BulkEditModal.tsx, App.tsx handleBulkSave)\<close>

datatype Mode = KeepMode | SetMode | ClearMode

datatype IndexMode = KeepIndex | AutoIndex | SameIndex

record BulkUpdateData =
  groupMode :: Mode
  groupName :: string
  groupColor_d :: string
  seriesMode :: Mode
  seriesTitle_d :: string
  seriesIndexMode :: IndexMode
  seriesIndexStart :: int
  seriesIndexValue :: string
  statusMode :: Mode
  statusValue :: string

text \<open>
  \<open>changes: Partial<Book>\<close>: for each field that the loop may assign, \<open>None\<close> when the
  key is not in the object and \<open>Some v\<close> when it is, \<open>v\<close> being the value written
  (\<open>None\<close> for \<open>undefined\<close>).
\<close>

record Changes =
  ch_group :: "string option option"
  ch_groupColor :: "string option option"
  ch_seriesTitle :: "string option option"
  ch_seriesIndex :: "string option option"
  ch_status :: "string option option"

definition computeChanges :: "BulkUpdateData \<Rightarrow> nat \<Rightarrow> Changes" where
  "computeChanges data i =
     \<lparr>ch_group = (case groupMode data of
                    ClearMode \<Rightarrow> Some (Some [])
                  | SetMode \<Rightarrow> Some (Some (groupName data))
                  | KeepMode \<Rightarrow> None),
      ch_groupColor = (case groupMode data of
                    ClearMode \<Rightarrow> Some None
                  | SetMode \<Rightarrow> Some (Some (groupColor_d data))
                  | KeepMode \<Rightarrow> None),
      ch_seriesTitle = (case seriesMode data of
                    ClearMode \<Rightarrow> Some (Some [])
                  | SetMode \<Rightarrow> Some (Some (seriesTitle_d data))
                  | KeepMode \<Rightarrow> None),
      ch_seriesIndex = (case seriesMode data of
                    ClearMode \<Rightarrow> Some (Some [])
                  | SetMode \<Rightarrow>
                      (case seriesIndexMode data of
                         AutoIndex \<Rightarrow> Some (Some (toString (jsAdd (seriesIndexStart data) (int i))))
                       | SameIndex \<Rightarrow> Some (Some (seriesIndexValue data))
                       | KeepIndex \<Rightarrow> None)
                  | KeepMode \<Rightarrow> None),
      ch_status = (case statusMode data of
                    ClearMode \<Rightarrow> Some (Some [])
                  | SetMode \<Rightarrow> Some (Some (statusValue data))
                  | KeepMode \<Rightarrow> None)\<rparr>"

text \<open>\<open>Object.keys(changes).length > 0\<close>.\<close>

definition hasKeys :: "Changes \<Rightarrow> bool" where
  "hasKeys ch = (ch_group ch \<noteq> None \<or> ch_groupColor ch \<noteq> None \<or> ch_seriesTitle ch \<noteq> None
                 \<or> ch_seriesIndex ch \<noteq> None \<or> ch_status ch \<noteq> None)"

text \<open>\<open>{ ...book, ...changes }\<close>.\<close>

definition spread :: "Book \<Rightarrow> Changes \<Rightarrow> Book" where
  "spread book ch =
     book\<lparr>book_group := (case ch_group ch of None \<Rightarrow> book_group book | Some v \<Rightarrow> v),
          groupColor := (case ch_groupColor ch of None \<Rightarrow> groupColor book | Some v \<Rightarrow> v),
          seriesTitle := (case ch_seriesTitle ch of None \<Rightarrow> seriesTitle book | Some v \<Rightarrow> v),
          seriesIndex := (case ch_seriesIndex ch of None \<Rightarrow> seriesIndex book | Some v \<Rightarrow> v),
          status := (case ch_status ch of None \<Rightarrow> status book | Some v \<Rightarrow> v)\<rparr>"

text \<open>The inner loop over the records of one group, counting the writes.\<close>

fun updateGroup :: "Changes \<Rightarrow> Book list \<Rightarrow> DBService \<times> nat \<Rightarrow> error + DBService \<times> nat" where
  "updateGroup ch [] st = Inr st"
| "updateGroup ch (book # rest) (svc, updateCount) =
     (case updateBook (spread book ch) svc of
        Inl e \<Rightarrow> Inl e
      | Inr svc' \<Rightarrow> updateGroup ch rest (svc', updateCount + 1))"

text \<open>The outer loop, \<open>i\<close> being the position of the group among the selected groups.\<close>

fun bulkLoop ::
  "BulkUpdateData \<Rightarrow> nat \<Rightarrow> BookGroup list \<Rightarrow> DBService \<times> nat \<Rightarrow> error + DBService \<times> nat" where
  "bulkLoop data i [] st = Inr st"
| "bulkLoop data i (g # gs) st =
     (let changes = computeChanges data i
      in if hasKeys changes
         then (case updateGroup changes (variants g) st of
                 Inl e \<Rightarrow> Inl e
               | Inr st' \<Rightarrow> bulkLoop data (i + 1) gs st')
         else bulkLoop data (i + 1) gs st)"

definition selectedGroups :: "BookGroup list \<Rightarrow> string set \<Rightarrow> BookGroup list" where
  "selectedGroups fsGroups selectedBookIds =
     filter (\<lambda>g. book_id (representative g) \<in> selectedBookIds) fsGroups"

text \<open>
  \<open>handleBulkSave\<close> reads the filtered and sorted groups and the selected ids that the
  component holds. The result is the service after the last write and \<open>updateCount\<close>.
\<close>

definition handleBulkSave ::
  "BulkUpdateData \<Rightarrow> BookGroup list \<Rightarrow> string set \<Rightarrow> DBService \<Rightarrow> error + DBService \<times> nat" where
  "handleBulkSave data fsGroups selectedBookIds svc =
     bulkLoop data 0 (selectedGroups fsGroups selectedBookIds) (svc, 0)"

section \<open>Sample data\<close>

text \<open>A record with the given id, title and author and nothing else filled in.\<close>

definition sampleBook :: "string \<Rightarrow> string \<Rightarrow> string \<Rightarrow> Book" where
  "sampleBook i t a =
     \<lparr>book_id = i, title = t, author = a, description = [], releaseDate = [], genre = [],
      language = None, seriesTitle = None, seriesIndex = None, seriesColor = None,
      book_group = None, groupColor = None, status = None, fileName = [],
      fileType = ''epub'', fileSize = 0, addedAt = 0, coverColor = [], fileData = None\<rparr>"

definition emptyService :: DBService where
  "emptyService = \<lparr>dbPromise = Inr \<lparr>books_store = [], settings_store = Map.empty\<rparr>\<rparr>"

section \<open>Comparators\<close>

text \<open>
  A comparator is consistent when swapping its arguments flips the sign of the result
  and "not after" is transitive. For such a comparator the sorted array is determined.
\<close>

definition consistentComparator :: "('a \<Rightarrow> 'a \<Rightarrow> int) \<Rightarrow> bool" where
  "consistentComparator cmp =
     ((\<forall>a b. sgn (cmp a b) = - sgn (cmp b a))
      \<and> (\<forall>a b c. cmp a b \<le> 0 \<and> cmp b c \<le> 0 \<longrightarrow> cmp a c \<le> 0))"

text \<open>
  Two stand-ins for the host's collation, used in the examples only. On strings of ASCII
  letters and digits \<open>plainCompare\<close> orders by the letters without their case and lets
  the small letter go first among strings that differ in case only; \<open>numericCompare\<close>
  ignores case and compares a run of digits by its value.
\<close>

definition compareKeys :: "'k::linorder \<Rightarrow> 'k \<Rightarrow> int" where
  "compareKeys x y = (if x < y then - 1 else if x = y then 0 else 1)"

definition isUpper :: "char \<Rightarrow> bool" where
  "isUpper c = (toLowerCaseChar c \<noteq> c)"

definition plainKey :: "string \<Rightarrow> nat list \<times> bool list" where
  "plainKey s = (map of_char (toLowerCase s), map isUpper s)"

definition plainCompare :: "string \<Rightarrow> string \<Rightarrow> int" where
  "plainCompare s t = compareKeys (plainKey s) (plainKey t)"

definition isDigit :: "char \<Rightarrow> bool" where
  "isDigit c = (48 \<le> (of_char c :: nat) \<and> (of_char c :: nat) \<le> 57)"

fun numericKey :: "nat option \<Rightarrow> string \<Rightarrow> (nat \<times> nat) list" where
  "numericKey run [] = (case run of None \<Rightarrow> [] | Some n \<Rightarrow> [(0, n)])"
| "numericKey run (c # cs) =
     (if isDigit c
      then numericKey (Some (10 * (case run of None \<Rightarrow> 0 | Some n \<Rightarrow> n) + (of_char c - 48))) cs
      else (case run of None \<Rightarrow> [] | Some n \<Rightarrow> [(0, n)])
           @ (1, of_char (toLowerCaseChar c)) # numericKey None cs)"

definition numericCompare :: "string \<Rightarrow> string \<Rightarrow> int" where
  "numericCompare s t = compareKeys (numericKey None s) (numericKey None t)"

text \<open>
  The three groups of the sort example: two volumes of the series Alpha, numbered 2 and
  10, and a book without a series.
\<close>

definition exampleG1 :: BookGroup where
  "exampleG1 = BookGroup ((sampleBook ''id1'' ''One'' ''Ann'')
                  \<lparr>seriesTitle := Some ''Alpha'', seriesIndex := Some ''2''\<rparr>) []"

definition exampleG2 :: BookGroup where
  "exampleG2 = BookGroup ((sampleBook ''id2'' ''Two'' ''Bob'')
                  \<lparr>seriesTitle := Some ''Alpha'', seriesIndex := Some ''10''\<rparr>) []"

definition exampleG3 :: BookGroup where
  "exampleG3 = BookGroup (sampleBook ''id3'' ''Three'' ''Cy'') []"

section \<open>The bulk edit as a list of writes\<close>

text \<open>
  The records that \<open>handleBulkSave\<close> writes, in the order of the loop: for each group
  the merged changes of its position, applied to each of its records.
\<close>

fun bulkWrites :: "BulkUpdateData \<Rightarrow> nat \<Rightarrow> BookGroup list \<Rightarrow> Book list" where
  "bulkWrites data i [] = []"
| "bulkWrites data i (g # gs) =
     (if hasKeys (computeChanges data i)
      then map (\<lambda>book. spread book (computeChanges data i)) (variants g) else [])
     @ bulkWrites data (i + 1) gs"

section \<open>More sample data\<close>

definition serviceWith :: "Book list \<Rightarrow> DBService" where
  "serviceWith xs = \<lparr>dbPromise = Inr \<lparr>books_store = xs, settings_store = Map.empty\<rparr>\<rparr>"

text \<open>What the bulk edit form holds when it opens: every mode is \<open>keep\<close>.\<close>

definition keepAll :: BulkUpdateData where
  "keepAll = \<lparr>groupMode = KeepMode, groupName = [], groupColor_d = ''#78716c'',
              seriesMode = KeepMode, seriesTitle_d = [], seriesIndexMode = KeepIndex,
              seriesIndexStart = 1, seriesIndexValue = [],
              statusMode = KeepMode, statusValue = ''Ongoing''\<rparr>"

definition autoIndexFrom5 :: BulkUpdateData where
  "autoIndexFrom5 = keepAll\<lparr>seriesMode := SetMode, seriesTitle_d := ''Alpha'',
                             seriesIndexMode := AutoIndex, seriesIndexStart := 5\<rparr>"

definition coloredBook :: Book where
  "coloredBook = (sampleBook ''id1'' ''One'' ''Ann'')
     \<lparr>seriesTitle := Some ''Alpha'', seriesIndex := Some ''2'', seriesColor := Some ''#ff0000'',
      book_group := Some ''Sci-Fi'', groupColor := Some ''#0000ff''\<rparr>"

text \<open>One book in two formats: the two records share the normalised title and author.\<close>

definition twoFormats :: BookGroup where
  "twoFormats = BookGroup (sampleBook ''e1'' ''Zero'' ''Zed'')
                  [(sampleBook ''e2'' ''zero'' ''zed'')\<lparr>fileType := ''pdf''\<rparr>]"

text \<open>A record with the given id (also its title), group, group colour, series and series colour.\<close>

definition tagged ::
  "string \<Rightarrow> string option \<Rightarrow> string option \<Rightarrow> string option \<Rightarrow> string option \<Rightarrow> Book" where
  "tagged i g gc s sc =
     (sampleBook i i ''Ann'')\<lparr>book_group := g, groupColor := gc, seriesTitle := s, seriesColor := sc\<rparr>"

section \<open>The group facets in the specification's words\<close>

text \<open>
  What \<open>uniqueGroups\<close> is compared with. A record is counted under its group name when
  the name has a character that is not white space; the names in the order of their
  first record; the members of a name; the group colour of the last member, in the
  order of the input, that has a non-empty one.
\<close>

definition countedName :: "Book \<Rightarrow> string option" where
  "countedName b =
     (case book_group b of None \<Rightarrow> None
      | Some g \<Rightarrow> if trim g \<noteq> [] then Some g else None)"

definition discoveryOrder :: "Book list \<Rightarrow> string list" where
  "discoveryOrder books = rev (remdups (rev (List.map_filter countedName books)))"

definition groupMembers :: "string \<Rightarrow> Book list \<Rightarrow> Book list" where
  "groupMembers g books = filter (\<lambda>b. book_group b = Some g) books"

definition lastSeenColor :: "Book list \<Rightarrow> string option" where
  "lastSeenColor bs =
     (case rev (filter (\<lambda>b. truthy (groupColor b)) bs) of [] \<Rightarrow> None | b # _ \<Rightarrow> groupColor b)"

definition facetOf :: "Book list \<Rightarrow> string \<Rightarrow> GroupFacet" where
  "facetOf books g =
     \<lparr>color = lastSeenColor (groupMembers g books), count = length (groupMembers g books)\<rparr>"

text \<open>Six records: two in Sci-Fi, one in Cooking, one in Classics, one with a blank group name, one with none.\<close>

definition shelf :: "Book list" where
  "shelf = [tagged ''a'' (Some ''Sci-Fi'') (Some ''#111111'') None None,
            tagged ''b'' (Some ''Cooking'') None None None,
            tagged ''c'' (Some ''Sci-Fi'') None None None,
            tagged ''d'' (Some ''Classics'') (Some ''#333333'') None None,
            tagged ''e'' (Some '' '') (Some ''#555555'') None None,
            tagged ''f'' None None None None]"

section \<open>The decimal string in the specification's words\<close>

text \<open>
  What the printed index is compared with: \<open>str\<close> is the decimal string of the integer
  \<open>n\<close> when it is a minus sign, if \<open>n\<close> is negative, followed by digits without a
  leading zero (the single digit 0 apart) whose value in base ten is the absolute value
  of \<open>n\<close>.
\<close>

definition digitsValue :: "string \<Rightarrow> nat" where
  "digitsValue ds = foldl (\<lambda>acc c. 10 * acc + (of_char c - 48)) 0 ds"

definition canonicalDigits :: "string \<Rightarrow> bool" where
  "canonicalDigits ds =
     (case ds of [] \<Rightarrow> False
      | c # cs \<Rightarrow> list_all isDigit ds \<and> (if c = CHR ''0'' then cs = [] else True))"

definition isDecimalString :: "string \<Rightarrow> int \<Rightarrow> bool" where
  "isDecimalString str n =
     (case str of [] \<Rightarrow> False
      | c # cs \<Rightarrow>
          if c = CHR ''-'' then n < 0 \<and> canonicalDigits cs \<and> int (digitsValue cs) = - n
          else 0 \<le> n \<and> canonicalDigits str \<and> int (digitsValue str) = n)"

section \<open>Facts about sorting\<close>

lemma set_insertBy: "set (insertBy cmp x ys) = insert x (set ys)"
  by (induction ys) auto

lemma set_sortBy: "set (sortBy cmp xs) = set xs"
  by (induction xs) (simp_all add: sortBy_def set_insertBy)

lemma mset_insertBy: "mset (insertBy cmp x ys) = add_mset x (mset ys)"
  by (induction ys) auto

lemma mset_sortBy: "mset (sortBy cmp xs) = mset xs"
  by (induction xs) (simp_all add: sortBy_def mset_insertBy)

section \<open>Facts about the record store\<close>

lemma set_store_put: "r \<in> set (store_put r xs)"
  by (induction xs) auto

lemma store_put_twice: "store_put r (store_put r xs) = store_put r xs"
  by (induction xs) auto

lemma store_get_put:
  "store_get k (store_put r xs) = (if k = book_id r then Some r else store_get k xs)"
  by (induction xs) (auto simp: store_get_def)

lemma store_delete_absent: "k \<notin> book_id ` set (store_delete k xs)"
  by (auto simp: store_delete_def)

text \<open>
  Claim C9. When the database opened: after \<open>put(r)\<close>, \<open>listAll()\<close> returns a list that
  holds \<open>r\<close> itself (equal in every field); after \<open>delete(k)\<close>, no record returned by
  \<open>listAll()\<close> has the id \<open>k\<close>; and a second \<open>put\<close> of the same record leaves the
  service as the first one left it.
\<close>

theorem put_listAll_delete_roundtrip:
  assumes "dbPromise svc = Inr db"
  shows "\<exists>svc1 svc2 bs1 bs2.
           addBook r svc = Inr svc1 \<and> getAllBooks svc1 = Inr bs1 \<and> r \<in> set bs1
         \<and> deleteBook k svc = Inr svc2 \<and> getAllBooks svc2 = Inr bs2 \<and> k \<notin> book_id ` set bs2
         \<and> addBook r svc1 = Inr svc1"
  using assms
  by (simp add: addBook_def getAllBooks_def deleteBook_def set_sortBy set_store_put
        store_put_twice store_delete_absent)

theorem put_listAll_delete_roundtrip_witness:
  "dbPromise emptyService = Inr \<lparr>books_store = [], settings_store = Map.empty\<rparr>
   \<and> (\<exists>svc1 svc2 bs1 bs2.
         addBook (sampleBook ''b1'' ''Dune'' ''Herbert'') emptyService = Inr svc1
       \<and> getAllBooks svc1 = Inr bs1 \<and> sampleBook ''b1'' ''Dune'' ''Herbert'' \<in> set bs1
       \<and> deleteBook ''b1'' emptyService = Inr svc2 \<and> getAllBooks svc2 = Inr bs2
       \<and> ''b1'' \<notin> book_id ` set bs2
       \<and> addBook (sampleBook ''b1'' ''Dune'' ''Herbert'') svc1 = Inr svc1)"
proof -
  have h: "dbPromise emptyService = Inr \<lparr>books_store = [], settings_store = Map.empty\<rparr>"
    by (simp add: emptyService_def)
  show ?thesis
    using h put_listAll_delete_roundtrip [OF h, of "sampleBook ''b1'' ''Dune'' ''Herbert''" "''b1''"]
    by simp
qed

section \<open>Facts about comparators\<close>

lemma consistent_total: "consistentComparator cmp \<Longrightarrow> 0 < cmp x y \<Longrightarrow> cmp y x \<le> 0"
proof -
  assume c: "consistentComparator cmp" and p: "0 < cmp x y"
  from c have "sgn (cmp y x) = - sgn (cmp x y)"
    unfolding consistentComparator_def by blast
  with p show ?thesis by (simp add: sgn_if split: if_splits)
qed

lemma consistent_trans:
  "consistentComparator cmp \<Longrightarrow> cmp a b \<le> 0 \<Longrightarrow> cmp b c \<le> 0 \<Longrightarrow> cmp a c \<le> 0"
  unfolding consistentComparator_def by blast

lemma sorted_insertBy:
  assumes c: "consistentComparator cmp"
  shows "sorted_wrt (\<lambda>a b. cmp a b \<le> 0) ys \<Longrightarrow> sorted_wrt (\<lambda>a b. cmp a b \<le> 0) (insertBy cmp x ys)"
proof (induction ys)
  case Nil
  then show ?case by simp
next
  case (Cons y ys)
  show ?case
  proof (cases "cmp x y \<le> 0")
    case True
    have "\<forall>z\<in>set ys. cmp x z \<le> 0"
      using Cons.prems True consistent_trans [OF c] by auto
    with True Cons.prems show ?thesis by simp
  next
    case False
    then have "cmp y x \<le> 0" using consistent_total [OF c, of x y] by simp
    with False Cons show ?thesis by (auto simp: set_insertBy)
  qed
qed

lemma sorted_sortBy:
  "consistentComparator cmp \<Longrightarrow> sorted_wrt (\<lambda>a b. cmp a b \<le> 0) (sortBy cmp xs)"
  by (induction xs) (simp_all add: sortBy_def sorted_insertBy)

lemma filter_insertBy_stable:
  assumes "P x \<Longrightarrow> \<forall>y\<in>set ys. P y \<longrightarrow> cmp x y \<le> 0"
  shows "filter P (insertBy cmp x ys) = (if P x then x # filter P ys else filter P ys)"
  using assms by (induction ys) auto

lemma filter_sortBy_stable:
  assumes "\<forall>x\<in>set xs. \<forall>y\<in>set xs. P x \<and> P y \<longrightarrow> cmp x y \<le> 0"
  shows "filter P (sortBy cmp xs) = filter P xs"
  using assms
proof (induction xs)
  case Nil
  then show ?case by (simp add: sortBy_def)
next
  case (Cons x xs)
  have ih: "filter P (sortBy cmp xs) = filter P xs" using Cons by auto
  have "filter P (insertBy cmp x (sortBy cmp xs))
        = (if P x then x # filter P (sortBy cmp xs) else filter P (sortBy cmp xs))"
    by (rule filter_insertBy_stable) (use Cons.prems in \<open>auto simp: set_sortBy\<close>)
  with ih show ?case by (simp add: sortBy_def)
qed

lemma maxTime_Max: "maxTime g = Max (addedAt ` set (variants g))"
proof -
  have "foldr max xs (a::int) = Max (insert a (set xs))" for xs a
  proof (induction xs)
    case Nil
    then show ?case by simp
  next
    case (Cons x xs)
    have "Max (insert a (set (x # xs))) = Max (insert x (insert a (set xs)))"
      by (simp add: insert_commute)
    also have "\<dots> = max x (Max (insert a (set xs)))"
      by (rule Max_insert) auto
    finally show ?case using Cons by simp
  qed
  then show ?thesis by (simp add: maxTime_def variants_def)
qed

lemma consistent_compareRecent: "consistentComparator compareRecent"
  by (auto simp: consistentComparator_def compareRecent_def sgn_if)

text \<open>
  Claim C7. Under the sort key \<open>recent\<close> the groups come out ordered by \<open>maxTime\<close>
  descending, and \<open>maxTime\<close> of a group is the greatest \<open>addedAt\<close> among all its
  variant records: a group with variants added at 100 and at 500 has the time 500,
  whichever of the two is the representative.
\<close>

theorem recent_orders_by_max_addedAt:
  "sorted_wrt (\<lambda>a b. maxTime b \<le> maxTime a) (filteredAndSortedGroups lc lcn groupedLib q fg Recent)
   \<and> mset (filteredAndSortedGroups lc lcn groupedLib q fg Recent)
       = mset (filter (\<lambda>g. matchesSearch q (representative g) \<and> matchesGroup fg (representative g)) groupedLib)
   \<and> maxTime g = Max (addedAt ` set (variants g))
   \<and> maxTime (BookGroup (a\<lparr>addedAt := 100\<rparr>) [b\<lparr>addedAt := 500\<rparr>]) = 500
   \<and> maxTime (BookGroup (a\<lparr>addedAt := 500\<rparr>) [b\<lparr>addedAt := 100\<rparr>]) = 500"
proof -
  have "sorted_wrt (\<lambda>a b. compareRecent a b \<le> 0) (sortBy compareRecent xs)" for xs
    by (rule sorted_sortBy [OF consistent_compareRecent])
  then have "sorted_wrt (\<lambda>a b. maxTime b \<le> maxTime a) (sortBy compareRecent xs)" for xs
    by (simp add: compareRecent_def)
  moreover have "maxTime (BookGroup (a\<lparr>addedAt := 100\<rparr>) [b\<lparr>addedAt := 500\<rparr>]) = 500"
    and "maxTime (BookGroup (a\<lparr>addedAt := 500\<rparr>) [b\<lparr>addedAt := 100\<rparr>]) = 500"
    by (simp_all add: maxTime_def)
  ultimately show ?thesis
    by (simp add: filteredAndSortedGroups_def mset_sortBy maxTime_Max)
qed

lemma consistent_compareKeys: "consistentComparator (\<lambda>s t. compareKeys (f s) (f t))"
  unfolding consistentComparator_def compareKeys_def
  by (auto simp: sgn_if)

lemma consistent_plainCompare: "consistentComparator plainCompare"
  using consistent_compareKeys [of plainKey] by (simp add: plainCompare_def [abs_def])

lemma consistent_numericCompare: "consistentComparator numericCompare"
  using consistent_compareKeys [of "numericKey None"] by (simp add: numericCompare_def [abs_def])

lemma consistent_facts:
  assumes c: "consistentComparator f"
  shows "f a b = 0 \<longleftrightarrow> f b a = 0"
    and "f a b < 0 \<longleftrightarrow> 0 < f b a"
    and "f a b \<le> 0 \<Longrightarrow> f b c \<le> 0 \<Longrightarrow> f a c \<le> 0"
    and "f a b < 0 \<Longrightarrow> f b c \<le> 0 \<Longrightarrow> f a c < 0"
    and "f a b \<le> 0 \<Longrightarrow> f b c < 0 \<Longrightarrow> f a c < 0"
    and "f a b = 0 \<Longrightarrow> f b c = 0 \<Longrightarrow> f a c = 0"
proof -
  have s: "sgn (f x y) = - sgn (f y x)" for x y
    using c unfolding consistentComparator_def by blast
  have t: "f x y \<le> 0 \<Longrightarrow> f y z \<le> 0 \<Longrightarrow> f x z \<le> 0" for x y z
    using c unfolding consistentComparator_def by blast
  show e: "f x y = 0 \<longleftrightarrow> f y x = 0" for x y
    using s [of x y] by (auto simp: sgn_if split: if_splits)
  show l: "f x y < 0 \<longleftrightarrow> 0 < f y x" for x y
    using s [of x y] by (auto simp: sgn_if split: if_splits)
  show "f a b \<le> 0 \<Longrightarrow> f b c \<le> 0 \<Longrightarrow> f a c \<le> 0" by (rule t)
  show "f a b < 0 \<Longrightarrow> f b c \<le> 0 \<Longrightarrow> f a c < 0"
  proof -
    assume 1: "f a b < 0" and 2: "f b c \<le> 0"
    have le: "f a c \<le> 0" using t [of a b c] 1 2 by simp
    have "f a c \<noteq> 0"
    proof
      assume "f a c = 0"
      then have "f c a \<le> 0" using e [of a c] by simp
      then have "f b a \<le> 0" using t [of b c a] 2 by simp
      then show False using l [of a b] 1 by simp
    qed
    with le show ?thesis by simp
  qed
  show "f a b \<le> 0 \<Longrightarrow> f b c < 0 \<Longrightarrow> f a c < 0"
  proof -
    assume 1: "f a b \<le> 0" and 2: "f b c < 0"
    have le: "f a c \<le> 0" using t [of a b c] 1 2 by simp
    have "f a c \<noteq> 0"
    proof
      assume "f a c = 0"
      then have "f c a \<le> 0" using e [of a c] by simp
      then have "f c b \<le> 0" using t [of c a b] 1 by simp
      then show False using l [of b c] 2 by simp
    qed
    with le show ?thesis by simp
  qed
  show "f a b = 0 \<Longrightarrow> f b c = 0 \<Longrightarrow> f a c = 0"
  proof -
    assume 1: "f a b = 0" and 2: "f b c = 0"
    have "f a c \<le> 0" using t [of a b c] 1 2 by simp
    moreover have "f c a \<le> 0" using t [of c b a] e [of a b] e [of b c] 1 2 by simp
    ultimately show ?thesis using l [of a c] by simp
  qed
qed

lemma consistent_lex:
  assumes f: "consistentComparator f" and g: "consistentComparator g"
  shows "consistentComparator (\<lambda>a b. if f a b \<noteq> 0 then f a b else g a b)"
proof -
  let ?h = "\<lambda>a b. if f a b \<noteq> 0 then f a b else g a b"
  have s: "sgn (?h a b) = - sgn (?h b a)" for a b
    using consistent_facts(1) [OF f, of a b] consistent_facts(2) [OF f, of a b]
      consistent_facts(1) [OF g, of a b] consistent_facts(2) [OF g, of a b]
      consistent_facts(2) [OF f, of b a] consistent_facts(2) [OF g, of b a]
    by (auto simp: sgn_if)
  have t: "?h a c \<le> 0" if 1: "?h a b \<le> 0" and 2: "?h b c \<le> 0" for a b c
  proof -
    from 1 have ab: "f a b < 0 \<or> (f a b = 0 \<and> g a b \<le> 0)" by (auto split: if_splits)
    from 2 have bc: "f b c < 0 \<or> (f b c = 0 \<and> g b c \<le> 0)" by (auto split: if_splits)
    from ab bc consider "f a c < 0" | "f a c = 0 \<and> g a c \<le> 0"
      using consistent_facts(4) [OF f, of a b c] consistent_facts(5) [OF f, of a b c]
        consistent_facts(6) [OF f, of a b c] consistent_facts(3) [OF g, of a b c]
      by fastforce
    then show ?thesis by cases auto
  qed
  show ?thesis unfolding consistentComparator_def using s t by blast
qed

lemma consistent_key: "consistentComparator f \<Longrightarrow> consistentComparator (\<lambda>a b. f (k a) (k b))"
  unfolding consistentComparator_def by blast

lemma consistent_classes:
  assumes t: "consistentComparator t" and h: "consistentComparator h"
  shows "consistentComparator
           (\<lambda>a b. if \<not> P a \<and> P b then 1 else if P a \<and> \<not> P b then - 1
                  else if \<not> P a \<and> \<not> P b then t a b else h a b)"
proof -
  let ?c = "\<lambda>a b. if \<not> P a \<and> P b then 1 else if P a \<and> \<not> P b then - 1
                  else if \<not> P a \<and> \<not> P b then t a b else (h a b :: int)"
  have s: "sgn (?c a b) = - sgn (?c b a)" for a b
    using consistent_facts(1) [OF t, of a b] consistent_facts(2) [OF t, of a b]
      consistent_facts(1) [OF h, of a b] consistent_facts(2) [OF h, of a b]
      consistent_facts(2) [OF t, of b a] consistent_facts(2) [OF h, of b a]
    by (auto simp: sgn_if)
  have tr: "?c a c \<le> 0" if 1: "?c a b \<le> 0" and 2: "?c b c \<le> 0" for a b c
    using 1 2 consistent_facts(3) [OF t, of a b c] consistent_facts(3) [OF h, of a b c]
    by (cases "P a"; cases "P b"; cases "P c") (simp_all split: if_splits)
  show ?thesis unfolding consistentComparator_def using s tr by blast
qed

lemma compareSeries_alt:
  "compareSeries lc lcn =
     (\<lambda>a b. if \<not> truthy (seriesTitle (representative a)) \<and> truthy (seriesTitle (representative b)) then 1
            else if truthy (seriesTitle (representative a)) \<and> \<not> truthy (seriesTitle (representative b)) then - 1
            else if \<not> truthy (seriesTitle (representative a)) \<and> \<not> truthy (seriesTitle (representative b))
            then lc (title (representative a)) (title (representative b))
            else (if lcn (orEmpty (seriesTitle (representative a))) (orEmpty (seriesTitle (representative b))) \<noteq> 0
                  then lcn (orEmpty (seriesTitle (representative a))) (orEmpty (seriesTitle (representative b)))
                  else lcn (orEmpty (seriesIndex (representative a))) (orEmpty (seriesIndex (representative b)))))"
  by (intro ext) (auto simp: compareSeries_def Let_def truthy_def orEmpty_def split: option.splits)

lemma consistent_compareSeries:
  assumes "consistentComparator lc" and "consistentComparator lcn"
  shows "consistentComparator (compareSeries lc lcn)"
  unfolding compareSeries_alt
  by (rule consistent_classes
        [OF consistent_key [OF assms(1)]
            consistent_lex [OF consistent_key [OF assms(2)] consistent_key [OF assms(2)]]])

lemma includes_str_Nil: "includes_str t []"
  by (cases t) simp_all

lemma partition_insertBy:
  assumes gt: "\<And>x y. \<not> P x \<Longrightarrow> P y \<Longrightarrow> 0 < cmp x y"
    and le: "\<And>x y. P x \<Longrightarrow> \<not> P y \<Longrightarrow> cmp x y \<le> 0"
  shows "sorted_wrt (\<lambda>a b. \<not> (\<not> P a \<and> P b)) ys
         \<Longrightarrow> sorted_wrt (\<lambda>a b. \<not> (\<not> P a \<and> P b)) (insertBy cmp x ys)"
proof (induction ys)
  case Nil
  then show ?case by simp
next
  case (Cons y ys)
  show ?case
  proof (cases "cmp x y \<le> 0")
    case True
    have "\<not> (\<not> P x \<and> P z)" if "z \<in> set (y # ys)" for z
    proof (cases "P x")
      case True
      then show ?thesis by simp
    next
      case False
      with \<open>cmp x y \<le> 0\<close> gt [of x y] have "\<not> P y" by fastforce
      with Cons.prems that show ?thesis by auto
    qed
    with True Cons.prems show ?thesis by simp
  next
    case False
    then have "\<not> (\<not> P y \<and> P x)" using le [of x y] by auto
    with False Cons show ?thesis by (auto simp: set_insertBy)
  qed
qed

lemma partition_sortBy:
  assumes "\<And>x y. \<not> P x \<Longrightarrow> P y \<Longrightarrow> 0 < cmp x y"
    and "\<And>x y. P x \<Longrightarrow> \<not> P y \<Longrightarrow> cmp x y \<le> 0"
  shows "sorted_wrt (\<lambda>a b. \<not> (\<not> P a \<and> P b)) (sortBy cmp xs)"
proof (induction xs)
  case Nil
  then show ?case by (simp add: sortBy_def)
next
  case (Cons x xs)
  have "sorted_wrt (\<lambda>a b. \<not> (\<not> P a \<and> P b)) (insertBy cmp x (sortBy cmp xs))"
    using assms Cons by (rule partition_insertBy)
  then show ?case by (simp add: sortBy_def)
qed

lemma series_examples:
  assumes "lcn ''Alpha'' ''Alpha'' = 0"
  shows "compareSeries lc lcn exampleG1 exampleG2 = lcn ''2'' ''10''"
    and "compareSeries lc lcn exampleG2 exampleG1 = lcn ''10'' ''2''"
    and "compareSeries lc lcn exampleG1 exampleG3 = - 1"
    and "compareSeries lc lcn exampleG2 exampleG3 = - 1"
    and "compareSeries lc lcn exampleG3 exampleG1 = 1"
    and "compareSeries lc lcn exampleG3 exampleG2 = 1"
  using assms
  by (simp_all add: compareSeries_def exampleG1_def exampleG2_def exampleG3_def
        sampleBook_def orEmpty_def)

lemma series_filter_examples:
  "matchesSearch [] (representative exampleG1)" "matchesSearch [] (representative exampleG2)"
  "matchesSearch [] (representative exampleG3)"
  by (simp_all add: matchesSearch_def toLowerCase_def includes_str_Nil)

text \<open>
  Claim C5. Under the sort key \<open>series\<close>, for any collation: in the output no group
  without a series title stands before a group with one; the comparator of two groups
  with a series is the numeric-aware comparison of the series titles and, when that is
  0, of the series indexes (an absent index read as the empty string); the comparator
  of two groups without a series is the comparison of their titles; for consistent
  collations the output is ordered by this comparator. With a numeric-aware collation
  that puts "2" before "10", the groups G1 (Alpha, 2), G2 (Alpha, 10) and G3 (no series)
  come out as G1, G2, G3 from each of their six arrangements.
\<close>

theorem series_order:
  fixes lc lcn :: "string \<Rightarrow> string \<Rightarrow> int"
  shows
  "sorted_wrt (\<lambda>a b. \<not> (orEmpty (seriesTitle (representative a)) = []
                         \<and> orEmpty (seriesTitle (representative b)) \<noteq> []))
      (filteredAndSortedGroups lc lcn groupedLib q fg Series)
   \<and> mset (filteredAndSortedGroups lc lcn groupedLib q fg Series)
       = mset (filter (\<lambda>g. matchesSearch q (representative g) \<and> matchesGroup fg (representative g)) groupedLib)
   \<and> (consistentComparator lc \<and> consistentComparator lcn \<longrightarrow>
        sorted_wrt (\<lambda>a b. compareSeries lc lcn a b \<le> 0)
          (filteredAndSortedGroups lc lcn groupedLib q fg Series))
   \<and> (orEmpty (seriesTitle (representative a)) \<noteq> [] \<and> orEmpty (seriesTitle (representative b)) \<noteq> [] \<longrightarrow>
        compareSeries lc lcn a b =
          (if lcn (orEmpty (seriesTitle (representative a))) (orEmpty (seriesTitle (representative b))) \<noteq> 0
           then lcn (orEmpty (seriesTitle (representative a))) (orEmpty (seriesTitle (representative b)))
           else lcn (orEmpty (seriesIndex (representative a))) (orEmpty (seriesIndex (representative b)))))
   \<and> (orEmpty (seriesTitle (representative c)) = [] \<and> orEmpty (seriesTitle (representative d)) = [] \<longrightarrow>
        compareSeries lc lcn c d = lc (title (representative c)) (title (representative d)))
   \<and> (lcn ''Alpha'' ''Alpha'' = 0 \<and> lcn ''2'' ''10'' < 0 \<and> 0 < lcn ''10'' ''2'' \<longrightarrow>
        filteredAndSortedGroups lc lcn [exampleG1, exampleG2, exampleG3] [] None Series
          = [exampleG1, exampleG2, exampleG3]
      \<and> filteredAndSortedGroups lc lcn [exampleG1, exampleG3, exampleG2] [] None Series
          = [exampleG1, exampleG2, exampleG3]
      \<and> filteredAndSortedGroups lc lcn [exampleG2, exampleG1, exampleG3] [] None Series
          = [exampleG1, exampleG2, exampleG3]
      \<and> filteredAndSortedGroups lc lcn [exampleG2, exampleG3, exampleG1] [] None Series
          = [exampleG1, exampleG2, exampleG3]
      \<and> filteredAndSortedGroups lc lcn [exampleG3, exampleG1, exampleG2] [] None Series
          = [exampleG1, exampleG2, exampleG3]
      \<and> filteredAndSortedGroups lc lcn [exampleG3, exampleG2, exampleG1] [] None Series
          = [exampleG1, exampleG2, exampleG3])"
  (is "?part \<and> ?perm \<and> ?sorted \<and> ?both \<and> ?neither \<and> ?example")
proof -
  let ?P = "\<lambda>g. orEmpty (seriesTitle (representative g)) \<noteq> []"
  have "sorted_wrt (\<lambda>a b. \<not> (\<not> ?P a \<and> ?P b)) (sortBy (compareSeries lc lcn) xs)" for xs
    by (rule partition_sortBy) (simp_all add: compareSeries_def Let_def)
  then have 1: ?part by (simp add: filteredAndSortedGroups_def)
  have 2: ?perm by (simp add: filteredAndSortedGroups_def mset_sortBy)
  have 3: ?sorted
    by (simp add: filteredAndSortedGroups_def sorted_sortBy consistent_compareSeries)
  have 4: ?both by (simp add: compareSeries_def Let_def)
  have 5: ?neither by (simp add: compareSeries_def Let_def)
  have 6: ?example
  proof
    assume h: "lcn ''Alpha'' ''Alpha'' = 0 \<and> lcn ''2'' ''10'' < 0 \<and> 0 < lcn ''10'' ''2''"
    then have a: "lcn ''Alpha'' ''Alpha'' = 0" by simp
    from h show "filteredAndSortedGroups lc lcn [exampleG1, exampleG2, exampleG3] [] None Series
          = [exampleG1, exampleG2, exampleG3]
      \<and> filteredAndSortedGroups lc lcn [exampleG1, exampleG3, exampleG2] [] None Series
          = [exampleG1, exampleG2, exampleG3]
      \<and> filteredAndSortedGroups lc lcn [exampleG2, exampleG1, exampleG3] [] None Series
          = [exampleG1, exampleG2, exampleG3]
      \<and> filteredAndSortedGroups lc lcn [exampleG2, exampleG3, exampleG1] [] None Series
          = [exampleG1, exampleG2, exampleG3]
      \<and> filteredAndSortedGroups lc lcn [exampleG3, exampleG1, exampleG2] [] None Series
          = [exampleG1, exampleG2, exampleG3]
      \<and> filteredAndSortedGroups lc lcn [exampleG3, exampleG2, exampleG1] [] None Series
          = [exampleG1, exampleG2, exampleG3]"
      by (simp add: filteredAndSortedGroups_def series_filter_examples matchesGroup_def
            truthy_def sortBy_def series_examples [where lcn = lcn, OF a])
  qed
  from 1 2 3 4 5 6 show ?thesis by blast
qed

theorem series_order_witness:
  "consistentComparator plainCompare \<and> consistentComparator numericCompare
   \<and> orEmpty (seriesTitle (representative exampleG1)) \<noteq> []
   \<and> orEmpty (seriesTitle (representative exampleG2)) \<noteq> []
   \<and> orEmpty (seriesTitle (representative exampleG3)) = []
   \<and> numericCompare ''Alpha'' ''Alpha'' = 0 \<and> numericCompare ''2'' ''10'' < 0
   \<and> 0 < numericCompare ''10'' ''2''
   \<and> sorted_wrt (\<lambda>a b. compareSeries plainCompare numericCompare a b \<le> 0)
        (filteredAndSortedGroups plainCompare numericCompare
           [exampleG3, exampleG2, exampleG1] [] None Series)
   \<and> compareSeries plainCompare numericCompare exampleG1 exampleG2 = numericCompare ''2'' ''10''
   \<and> compareSeries plainCompare numericCompare exampleG3 exampleG3 = plainCompare ''Three'' ''Three''
   \<and> filteredAndSortedGroups plainCompare numericCompare
        [exampleG3, exampleG2, exampleG1] [] None Series = [exampleG1, exampleG2, exampleG3]"
proof -
  have n: "numericCompare ''Alpha'' ''Alpha'' = 0" "numericCompare ''2'' ''10'' < 0"
    "0 < numericCompare ''10'' ''2''"
    by (simp_all add: numericCompare_def compareKeys_def isDigit_def toLowerCaseChar_def)
  have e: "orEmpty (seriesTitle (representative exampleG1)) = ''Alpha''"
    "orEmpty (seriesTitle (representative exampleG2)) = ''Alpha''"
    "orEmpty (seriesTitle (representative exampleG3)) = []"
    "orEmpty (seriesIndex (representative exampleG1)) = ''2''"
    "orEmpty (seriesIndex (representative exampleG2)) = ''10''"
    "title (representative exampleG3) = ''Three''"
    by (simp_all add: exampleG1_def exampleG2_def exampleG3_def sampleBook_def orEmpty_def)
  show ?thesis
    using series_order [of plainCompare numericCompare "[exampleG3, exampleG2, exampleG1]" "[]" None
        exampleG1 exampleG2 exampleG3 exampleG3]
      consistent_plainCompare consistent_numericCompare n
    by (simp add: e series_examples [where lcn = numericCompare, OF n(1)])
qed

section \<open>Facts about the bulk edit\<close>

lemma updateBook_open:
  "dbPromise svc = Inr db \<Longrightarrow>
   updateBook b svc = Inr (svc\<lparr>dbPromise := Inr (db\<lparr>books_store := store_put b (books_store db)\<rparr>)\<rparr>)"
  by (simp add: updateBook_def addBook_def)

lemma updateBooks_open:
  "dbPromise svc = Inr db \<Longrightarrow>
   updateBooks ws svc = Inr (svc\<lparr>dbPromise := Inr (db\<lparr>books_store := fold store_put ws (books_store db)\<rparr>)\<rparr>)"
proof (induction ws arbitrary: svc db)
  case Nil
  then show ?case by simp
next
  case (Cons w ws)
  let ?db1 = "db\<lparr>books_store := store_put w (books_store db)\<rparr>"
  let ?svc1 = "svc\<lparr>dbPromise := Inr ?db1\<rparr>"
  have 1: "updateBook w svc = Inr ?svc1" using Cons.prems by (rule updateBook_open)
  have 2: "dbPromise ?svc1 = Inr ?db1" by simp
  show ?case using 1 Cons.IH [OF 2] by simp
qed

lemma updateBooks_append:
  "updateBooks (xs @ ys) svc =
     (case updateBooks xs svc of Inl e \<Rightarrow> Inl e | Inr svc' \<Rightarrow> updateBooks ys svc')"
  by (induction xs arbitrary: svc) (auto split: sum.splits)

lemma updateGroup_writes:
  "updateGroup ch bs (svc, n) =
     (case updateBooks (map (\<lambda>book. spread book ch) bs) svc of
        Inl e \<Rightarrow> Inl e | Inr svc' \<Rightarrow> Inr (svc', n + length bs))"
  by (induction bs arbitrary: svc n) (auto split: sum.splits)

lemma bulkLoop_writes:
  "bulkLoop data i gs (svc, n) =
     (case updateBooks (bulkWrites data i gs) svc of
        Inl e \<Rightarrow> Inl e | Inr svc' \<Rightarrow> Inr (svc', n + length (bulkWrites data i gs)))"
proof (induction gs arbitrary: i svc n)
  case Nil
  then show ?case by simp
next
  case (Cons g gs)
  show ?case
  proof (cases "hasKeys (computeChanges data i)")
    case True
    then show ?thesis
      by (auto simp: Let_def updateGroup_writes updateBooks_append Cons.IH split: sum.splits)
  next
    case False
    then show ?thesis by (simp add: Let_def Cons.IH split: sum.splits)
  qed
qed

lemma find_app:
  "find P (xs @ ys) = (case find P xs of None \<Rightarrow> find P ys | Some x \<Rightarrow> Some x)"
  by (induction xs) auto

lemma find_Some_set: "find P xs = Some x \<Longrightarrow> x \<in> set xs \<and> P x"
  by (induction xs) (auto split: if_splits)

lemma store_get_fold_put:
  "store_get k (fold store_put ws xs) =
     (case find (\<lambda>w. book_id w = k) (rev ws) of None \<Rightarrow> store_get k xs | Some w \<Rightarrow> Some w)"
proof (induction ws arbitrary: xs)
  case Nil
  then show ?case by simp
next
  case (Cons w ws)
  show ?case
    by (simp add: Cons.IH find_app store_get_put split: option.splits)
qed

lemma store_get_unwritten:
  "k \<notin> book_id ` set ws \<Longrightarrow> store_get k (fold store_put ws xs) = store_get k xs"
proof -
  assume "k \<notin> book_id ` set ws"
  then have "find (\<lambda>w. book_id w = k) (rev ws) = None"
    by (auto simp: find_None_iff)
  then show ?thesis by (simp add: store_get_fold_put)
qed

lemma store_get_written:
  assumes "w \<in> set ws"
  shows "\<exists>w'\<in>set ws. book_id w' = book_id w \<and> store_get (book_id w) (fold store_put ws xs) = Some w'"
proof -
  from assms have "find (\<lambda>v. book_id v = book_id w) (rev ws) \<noteq> None"
    by (auto simp: find_None_iff)
  then obtain w' where f: "find (\<lambda>v. book_id v = book_id w) (rev ws) = Some w'" by auto
  then have "w' \<in> set ws \<and> book_id w' = book_id w"
    using find_Some_set [OF f] by simp
  with f show ?thesis by (auto simp: store_get_fold_put)
qed

lemma store_get_written_distinct:
  assumes "w \<in> set ws" and "distinct (map book_id ws)"
  shows "store_get (book_id w) (fold store_put ws xs) = Some w"
proof -
  obtain w' where 1: "w' \<in> set ws" "book_id w' = book_id w"
    and 2: "store_get (book_id w) (fold store_put ws xs) = Some w'"
    using store_get_written [OF assms(1)] by blast
  from 1 assms have "w' = w" by (meson distinct_map inj_onD)
  with 2 show ?thesis by simp
qed

lemma book_id_spread [simp]: "book_id (spread b ch) = book_id b"
  by (simp add: spread_def)

lemma ids_bulkWrites:
  "w \<in> set (bulkWrites data i gs) \<Longrightarrow> \<exists>g\<in>set gs. \<exists>b\<in>set (variants g). book_id w = book_id b"
  by (induction gs arbitrary: i) (auto split: if_splits)

lemma map_id_bulkWrites_keys:
  "(\<And>j. hasKeys (computeChanges data j)) \<Longrightarrow>
   map book_id (bulkWrites data i gs) = map book_id (concat (map variants gs))"
  by (induction gs arbitrary: i) (simp_all add: comp_def)

lemma bulkWrites_no_keys:
  "\<not> hasKeys (computeChanges data 0) \<Longrightarrow> bulkWrites data i gs = []"
proof (induction gs arbitrary: i)
  case Nil
  then show ?case by simp
next
  case (Cons g gs)
  have "hasKeys (computeChanges data i) = hasKeys (computeChanges data 0)"
    by (simp add: hasKeys_def computeChanges_def split: Mode.splits IndexMode.splits)
  with Cons show ?case by simp
qed

lemma hasKeys_any: "hasKeys (computeChanges data i) = hasKeys (computeChanges data j)"
  by (simp add: hasKeys_def computeChanges_def split: Mode.splits IndexMode.splits)

lemma distinct_bulkWrites:
  assumes "distinct (map book_id (concat (map variants gs)))"
  shows "distinct (map book_id (bulkWrites data i gs))"
proof (cases "hasKeys (computeChanges data 0)")
  case True
  then have "\<And>j. hasKeys (computeChanges data j)" using hasKeys_any by blast
  then show ?thesis using assms by (simp add: map_id_bulkWrites_keys)
next
  case False
  then show ?thesis by (simp add: bulkWrites_no_keys)
qed

lemma bulkWrites_member:
  assumes "i < length gs" and "b \<in> set (variants (gs ! i))" and "hasKeys (computeChanges data (j + i))"
  shows "spread b (computeChanges data (j + i)) \<in> set (bulkWrites data j gs)"
  using assms
proof (induction gs arbitrary: i j)
  case Nil
  then show ?case by simp
next
  case (Cons g gs)
  show ?case
  proof (cases i)
    case 0
    with Cons.prems show ?thesis by auto
  next
    case (Suc i')
    with Cons.prems have "spread b (computeChanges data (Suc j + i')) \<in> set (bulkWrites data (Suc j) gs)"
      by (intro Cons.IH) auto
    with Suc show ?thesis by simp
  qed
qed

lemma handleBulkSave_open:
  assumes "dbPromise svc = Inr db"
  shows "handleBulkSave data fs sel svc =
           Inr (svc\<lparr>dbPromise := Inr (db\<lparr>books_store :=
                   fold store_put (bulkWrites data 0 (selectedGroups fs sel)) (books_store db)\<rparr>)\<rparr>,
                length (bulkWrites data 0 (selectedGroups fs sel)))"
  by (simp add: handleBulkSave_def bulkLoop_writes updateBooks_open [OF assms])

lemma storedBook_open:
  "storedBook k (svc\<lparr>dbPromise := Inr (db\<lparr>books_store := xs\<rparr>)\<rparr>) = store_get k xs"
  by (simp add: storedBook_def)

lemma bulkWrites_shape:
  "w \<in> set (bulkWrites data i gs) \<Longrightarrow> \<exists>j b. w = spread b (computeChanges data j)"
  by (induction gs arbitrary: i) (auto split: if_splits)

lemma selected_nth:
  "g \<in> set gs \<Longrightarrow> \<exists>i<length gs. gs ! i = g"
  by (simp add: in_set_conv_nth)

lemma stored_after_bulk:
  assumes o: "dbPromise svc = Inr db"
    and i: "i < length (selectedGroups fs sel)"
    and b: "b \<in> set (variants (selectedGroups fs sel ! i))"
    and k: "hasKeys (computeChanges data i)"
  shows "\<exists>svc' n. handleBulkSave data fs sel svc = Inr (svc', n)
           \<and> (\<exists>w\<in>set (bulkWrites data 0 (selectedGroups fs sel)).
                 book_id w = book_id b \<and> storedBook (book_id b) svc' = Some w)
           \<and> (distinct (map book_id (concat (map variants (selectedGroups fs sel)))) \<longrightarrow>
                 storedBook (book_id b) svc' = Some (spread b (computeChanges data i)))"
proof -
  let ?ws = "bulkWrites data 0 (selectedGroups fs sel)"
  let ?w = "spread b (computeChanges data i)"
  have m: "?w \<in> set ?ws" using bulkWrites_member [of i _ b data 0] i b k by simp
  have 1: "\<exists>w\<in>set ?ws. book_id w = book_id b
            \<and> store_get (book_id b) (fold store_put ?ws (books_store db)) = Some w"
    using store_get_written [OF m, of "books_store db"] by simp
  have 2: "store_get (book_id b) (fold store_put ?ws (books_store db)) = Some ?w"
    if "distinct (map book_id (concat (map variants (selectedGroups fs sel))))"
    using store_get_written_distinct [OF m distinct_bulkWrites [OF that], of "books_store db"]
    by simp
  show ?thesis
    using 1 2 by (simp add: handleBulkSave_open [OF o] storedBook_open)
qed

lemma serviceWith_open:
  "dbPromise (serviceWith xs) = Inr \<lparr>books_store = xs, settings_store = Map.empty\<rparr>"
  by (simp add: serviceWith_def)

lemma example_ids:
  "book_id (representative twoFormats) = ''e1''"
  "map book_id (variants twoFormats) = [''e1'', ''e2'']"
  "map book_id (variants exampleG2) = [''id2'']"
  "map book_id (variants exampleG3) = [''id3'']"
  "book_id (representative exampleG2) = ''id2''"
  "book_id (representative exampleG3) = ''id3''"
  by (simp_all add: twoFormats_def exampleG2_def exampleG3_def variants_def sampleBook_def)

lemma autoIndexFrom5_fields:
  "seriesMode autoIndexFrom5 = SetMode" "seriesIndexMode autoIndexFrom5 = AutoIndex"
  "seriesIndexStart autoIndexFrom5 = 5"
  by (simp_all add: autoIndexFrom5_def keepAll_def)

section \<open>Facts about numbers and their strings\<close>

lemma digit_cases: "d < 10 \<Longrightarrow> d \<in> {0, 1, 2, 3, 4, 5, 6, 7, 8, 9 :: nat}"
  by auto

lemma digitChar_facts:
  assumes "d < 10"
  shows "(of_char (digitChar d) :: nat) = 48 + d" and "isDigit (digitChar d)"
    and "digitChar d = CHR ''0'' \<longleftrightarrow> d = 0" and "digitChar d \<noteq> CHR ''-''"
  using digit_cases [OF assms] by (auto simp: digitChar_def isDigit_def)

lemma decimal_big: "10 \<le> n \<Longrightarrow> decimal n = decimal (n div 10) @ [digitChar (n mod 10)]"
  by (subst decimal.simps) simp

lemma decimal_small: "n < 10 \<Longrightarrow> decimal n = [digitChar n]"
  by (subst decimal.simps) simp

lemma decimal_nonempty: "decimal n \<noteq> []"
  by (cases "n < 10") (simp_all add: decimal_small decimal_big)

lemma decimal_digits: "list_all isDigit (decimal n)"
proof (induction n rule: decimal.induct)
  case (1 n)
  show ?case
  proof (cases "n < 10")
    case True
    then show ?thesis by (simp add: decimal_small digitChar_facts)
  next
    case False
    then have "list_all isDigit (decimal (n div 10))" using 1 by simp
    with False show ?thesis by (simp add: decimal_big digitChar_facts)
  qed
qed

lemma digitsValue_snoc: "digitsValue (ds @ [c]) = 10 * digitsValue ds + (of_char c - 48)"
  by (simp add: digitsValue_def)

lemma digitsValue_decimal: "digitsValue (decimal n) = n"
proof (induction n rule: decimal.induct)
  case (1 n)
  show ?case
  proof (cases "n < 10")
    case True
    then show ?thesis by (simp add: decimal_small digitChar_facts digitsValue_def)
  next
    case False
    then have "digitsValue (decimal (n div 10)) = n div 10" using 1 by simp
    with False show ?thesis by (simp add: decimal_big digitsValue_snoc digitChar_facts)
  qed
qed

lemma hd_decimal: "hd (decimal n) = CHR ''0'' \<Longrightarrow> n = 0"
proof (induction n rule: decimal.induct)
  case (1 n)
  show ?case
  proof (cases "n < 10")
    case True
    with "1.prems" show ?thesis by (simp add: decimal_small digitChar_facts)
  next
    case False
    then have "hd (decimal n) = hd (decimal (n div 10))"
      by (simp add: decimal_big decimal_nonempty)
    with 1 False have "n div 10 = 0" by simp
    with False show ?thesis by simp
  qed
qed

lemma hd_decimal_digit: "isDigit (hd (decimal n))"
  using decimal_digits [of n] decimal_nonempty [of n] by (cases "decimal n") simp_all

lemma decimal_zero: "decimal 0 = ''0''"
  by (simp add: decimal_small digitChar_def)

lemma canonical_decimal: "canonicalDigits (decimal n)"
proof (cases "decimal n")
  case Nil
  then show ?thesis using decimal_nonempty by simp
next
  case (Cons c cs)
  have d: "list_all isDigit (c # cs)" using decimal_digits [of n] Cons by simp
  have "cs = []" if "c = CHR ''0''"
  proof -
    from that Cons have "n = 0" using hd_decimal [of n] by simp
    with Cons show ?thesis by (simp add: decimal_zero)
  qed
  with d Cons show ?thesis by (simp add: canonicalDigits_def)
qed

lemma isDecimalString_decimal:
  "isDecimalString (if x < 0 then CHR ''-'' # decimal (nat (- x)) else decimal (nat x)) x"
proof (cases "x < 0")
  case True
  then show ?thesis
    by (simp add: isDecimalString_def canonical_decimal digitsValue_decimal)
next
  case False
  obtain c cs where e: "decimal (nat x) = c # cs"
    using decimal_nonempty [of "nat x"] by (cases "decimal (nat x)") auto
  have "isDigit c" using hd_decimal_digit [of "nat x"] e by simp
  then have "c \<noteq> CHR ''-''" by (auto simp: isDigit_def)
  with False e show ?thesis
    using canonical_decimal [of "nat x"] digitsValue_decimal [of "nat x"]
    by (simp add: isDecimalString_def)
qed

lemma toString_safe:
  assumes "\<bar>x\<bar> \<le> 2 ^ 53"
  shows "toString x = (if x < 0 then CHR ''-'' # decimal (nat (- x)) else decimal (nat x))"
proof -
  have "nat (- x) \<le> 2 ^ 53" "nat x \<le> 2 ^ 53" using assms by (simp_all add: nat_le_iff)
  then show ?thesis by (simp add: toString_def numberDigits_def)
qed

lemma jsAdd_safe: "\<bar>a + b\<bar> \<le> 2 ^ 53 \<Longrightarrow> jsAdd a b = a + b"
proof -
  assume h: "\<bar>a + b\<bar> \<le> 2 ^ 53"
  then have "nat (- (a + b)) \<le> 2 ^ 53" "nat (a + b) \<le> 2 ^ 53" by (simp_all add: nat_le_iff)
  then show ?thesis by (simp add: jsAdd_def roundDouble_def roundNat_def)
qed

lemma toString_jsAdd_safe:
  "\<bar>a + b\<bar> \<le> 2 ^ 53 \<Longrightarrow> isDecimalString (toString (jsAdd a b)) (a + b)"
  by (simp add: jsAdd_safe toString_safe isDecimalString_decimal)

lemma char_of_digits:
  "char_of (48 :: nat) = CHR ''0''" "char_of (49 :: nat) = CHR ''1''" "char_of (50 :: nat) = CHR ''2''"
  "char_of (51 :: nat) = CHR ''3''" "char_of (52 :: nat) = CHR ''4''" "char_of (53 :: nat) = CHR ''5''"
  "char_of (54 :: nat) = CHR ''6''" "char_of (55 :: nat) = CHR ''7''" "char_of (56 :: nat) = CHR ''8''"
  "char_of (57 :: nat) = CHR ''9''"
  by code_simp+

lemma isDigit_digitChar:
  assumes "isDigit c"
  shows "(of_char c :: nat) - 48 < 10" and "digitChar (of_char c - 48) = c"
proof -
  let ?n = "of_char c :: nat"
  have r: "48 \<le> ?n" "?n \<le> 57" using assms by (simp_all add: isDigit_def)
  then show "?n - 48 < 10" by simp
  from r have "?n \<in> {48, 49, 50, 51, 52, 53, 54, 55, 56, 57}" by simp arith
  moreover have "c = char_of ?n" by simp
  ultimately have "c \<in> set ''0123456789''"
    using char_of_digits by (metis insertE insert_iff list.set(2) empty_iff)
  then show "digitChar (of_char c - 48) = c"
    by (auto simp: digitChar_def)
qed

lemma digitsValue_positive:
  "ds \<noteq> [] \<Longrightarrow> list_all isDigit ds \<Longrightarrow> hd ds \<noteq> CHR ''0'' \<Longrightarrow> 0 < digitsValue ds"
proof (induction ds rule: rev_induct)
  case Nil
  then show ?case by simp
next
  case (snoc c xs)
  show ?case
  proof (cases "xs = []")
    case True
    with snoc.prems have "isDigit c" "c \<noteq> CHR ''0''" by simp_all
    then have "0 < (of_char c :: nat) - 48"
      using isDigit_digitChar [of c] by (cases "(of_char c :: nat) - 48 = 0") (auto simp: digitChar_def)
    with True show ?thesis by (simp add: digitsValue_def)
  next
    case False
    with snoc have "0 < digitsValue xs" by simp
    then show ?thesis by (simp add: digitsValue_snoc)
  qed
qed

lemma decimal_digitsValue:
  "canonicalDigits ds \<Longrightarrow> decimal (digitsValue ds) = ds"
proof (induction ds rule: rev_induct)
  case Nil
  then show ?case by (simp add: canonicalDigits_def)
next
  case (snoc c xs)
  have all: "list_all isDigit (xs @ [c])"
    using snoc.prems by (cases "xs @ [c]") (simp_all add: canonicalDigits_def)
  then have c: "isDigit c" by simp
  have v: "digitsValue (xs @ [c]) = 10 * digitsValue xs + (of_char c - 48)"
    by (rule digitsValue_snoc)
  show ?case
  proof (cases "xs = []")
    case True
    then show ?thesis
      using isDigit_digitChar [OF c] by (simp add: digitsValue_def decimal_small)
  next
    case False
    then obtain y ys where xs: "xs = y # ys" by (cases xs) auto
    have y: "y \<noteq> CHR ''0''"
      using snoc.prems xs by (auto simp: canonicalDigits_def split: if_splits)
    have cx: "canonicalDigits xs"
      using all y xs by (simp add: canonicalDigits_def)
    have pos: "0 < digitsValue xs"
      using digitsValue_positive [of xs] all y xs by simp
    then have big: "10 \<le> digitsValue (xs @ [c])" using v by simp
    have "decimal (digitsValue (xs @ [c]))
          = decimal (digitsValue (xs @ [c]) div 10) @ [digitChar (digitsValue (xs @ [c]) mod 10)]"
      using big by (rule decimal_big)
    also have "digitsValue (xs @ [c]) div 10 = digitsValue xs"
      using v isDigit_digitChar(1) [OF c] by simp
    also have "digitsValue (xs @ [c]) mod 10 = of_char c - 48"
      using v isDigit_digitChar(1) [OF c] by simp
    finally show ?thesis
      using snoc.IH [OF cx] isDigit_digitChar(2) [OF c] by simp
  qed
qed

lemma isDecimalString_iff:
  "isDecimalString str n
     \<longleftrightarrow> str = (if n < 0 then CHR ''-'' # decimal (nat (- n)) else decimal (nat n))"
proof
  assume h: "isDecimalString str n"
  then obtain c cs where s: "str = c # cs" by (cases str) (auto simp: isDecimalString_def)
  show "str = (if n < 0 then CHR ''-'' # decimal (nat (- n)) else decimal (nat n))"
  proof (cases "c = CHR ''-''")
    case True
    with h s have n: "n < 0" "canonicalDigits cs" "int (digitsValue cs) = - n"
      by (simp_all add: isDecimalString_def)
    then have "decimal (nat (- n)) = cs" using decimal_digitsValue [of cs] by (metis nat_int)
    with n True s show ?thesis by simp
  next
    case False
    with h s have n: "0 \<le> n" "canonicalDigits str" "int (digitsValue str) = n"
      by (simp_all add: isDecimalString_def)
    then have "decimal (nat n) = str" using decimal_digitsValue [of str] by (metis nat_int)
    with n show ?thesis by simp
  qed
next
  assume "str = (if n < 0 then CHR ''-'' # decimal (nat (- n)) else decimal (nat n))"
  then show "isDecimalString str n" using isDecimalString_decimal [of n] by simp
qed

section \<open>The bulk edit: clearing and numbering\<close>

text \<open>
  What the two \<open>clear\<close> modes reset, with the database open: the group mode resets
  \<open>group\<close> and \<open>groupColor\<close>, the series mode resets \<open>seriesTitle\<close> and
  \<open>seriesIndex\<close>, on the stored record of every member of every selected group.
\<close>

lemma bulk_clear_resets:
  assumes "dbPromise svc = Inr db"
  shows "\<exists>svc' n. handleBulkSave data fs sel svc = Inr (svc', n)
     \<and> (groupMode data = ClearMode \<longrightarrow>
          (\<forall>g\<in>set (selectedGroups fs sel). \<forall>b\<in>set (variants g).
             \<exists>b'. storedBook (book_id b) svc' = Some b'
                \<and> book_group b' = Some [] \<and> groupColor b' = None))
     \<and> (seriesMode data = ClearMode \<longrightarrow>
          (\<forall>g\<in>set (selectedGroups fs sel). \<forall>b\<in>set (variants g).
             \<exists>b'. storedBook (book_id b) svc' = Some b'
                \<and> seriesTitle b' = Some [] \<and> seriesIndex b' = Some []))"
proof -
  let ?sg = "selectedGroups fs sel"
  let ?ws = "bulkWrites data 0 ?sg"
  let ?svc' = "svc\<lparr>dbPromise := Inr (db\<lparr>books_store := fold store_put ?ws (books_store db)\<rparr>)\<rparr>"
  have r: "handleBulkSave data fs sel svc = Inr (?svc', length ?ws)"
    by (rule handleBulkSave_open [OF assms])
  have w: "\<exists>w j b0. storedBook (book_id b) ?svc' = Some w \<and> w = spread b0 (computeChanges data j)"
    if k: "\<And>i. hasKeys (computeChanges data i)" and gs: "g \<in> set ?sg" and b: "b \<in> set (variants g)"
    for g b
  proof -
    obtain i where i: "i < length ?sg" "?sg ! i = g" using selected_nth [OF gs] by blast
    obtain w where w: "w \<in> set ?ws" "storedBook (book_id b) ?svc' = Some w"
      using stored_after_bulk [OF assms i(1) _ k, of b] b i(2) r by auto
    then show ?thesis using bulkWrites_shape [OF w(1)] by blast
  qed
  have g: "\<exists>b'. storedBook (book_id b) ?svc' = Some b' \<and> book_group b' = Some [] \<and> groupColor b' = None"
    if c: "groupMode data = ClearMode" and gs: "g \<in> set ?sg" and b: "b \<in> set (variants g)" for g b
  proof -
    have "\<And>i. hasKeys (computeChanges data i)" using c by (simp add: hasKeys_def computeChanges_def)
    then obtain w' j b0 where "storedBook (book_id b) ?svc' = Some w'"
      "w' = spread b0 (computeChanges data j)" using w [OF _ gs b] by blast
    then show ?thesis using c by (simp add: spread_def computeChanges_def)
  qed
  have s: "\<exists>b'. storedBook (book_id b) ?svc' = Some b' \<and> seriesTitle b' = Some [] \<and> seriesIndex b' = Some []"
    if c: "seriesMode data = ClearMode" and gs: "g \<in> set ?sg" and b: "b \<in> set (variants g)" for g b
  proof -
    have "\<And>i. hasKeys (computeChanges data i)" using c by (simp add: hasKeys_def computeChanges_def)
    then obtain w' j b0 where "storedBook (book_id b) ?svc' = Some w'"
      "w' = spread b0 (computeChanges data j)" using w [OF _ gs b] by blast
    then show ?thesis using c by (simp add: spread_def computeChanges_def)
  qed
  show ?thesis using r g s by blast
qed

text \<open>
  Claim C1 at a failing input. One selected record with the group colour \<open>#0000ff\<close>
  and the series colour \<open>#ff0000\<close>, both modes \<open>clear\<close>: the record is stored with
  the group colour reset to absent, as the claim says, and with the series colour
  \<open>#ff0000\<close> still set, where the claim says absent.
\<close>

theorem bulk_clear_keeps_series_color:
  "handleBulkSave (keepAll\<lparr>groupMode := ClearMode, seriesMode := ClearMode\<rparr>)
      [BookGroup coloredBook []] {''id1''} (serviceWith [coloredBook])
     = Inr (serviceWith [coloredBook\<lparr>book_group := Some [], groupColor := None,
                                       seriesTitle := Some [], seriesIndex := Some []\<rparr>], 1)
   \<and> storedBook ''id1''
        (serviceWith [coloredBook\<lparr>book_group := Some [], groupColor := None,
                                   seriesTitle := Some [], seriesIndex := Some []\<rparr>])
     = Some (coloredBook\<lparr>book_group := Some [], groupColor := None,
                           seriesTitle := Some [], seriesIndex := Some []\<rparr>)
   \<and> groupColor coloredBook = Some ''#0000ff''
   \<and> groupColor (coloredBook\<lparr>book_group := Some [], groupColor := None,
                               seriesTitle := Some [], seriesIndex := Some []\<rparr>) = None
   \<and> seriesColor coloredBook = Some ''#ff0000''
   \<and> seriesColor (coloredBook\<lparr>book_group := Some [], groupColor := None,
                                seriesTitle := Some [], seriesIndex := Some []\<rparr>) = Some ''#ff0000''"
  by (simp add: handleBulkSave_def selectedGroups_def coloredBook_def sampleBook_def
        serviceWith_def keepAll_def computeChanges_def hasKeys_def variants_def spread_def
        updateBook_def addBook_def storedBook_def store_get_def)

text \<open>
  Claim C2, as amended. With the database open, series mode \<open>set\<close>, index mode
  \<open>auto\<close> and the start value \<open>s\<close>, the ids of the selected records being distinct:
  the stored record of every variant of the group at position \<open>i\<close> (from 0) among the
  selected groups has as \<open>seriesIndex\<close> the printed sum of \<open>s\<close> and \<open>i\<close>, and this
  is the decimal string of \<open>s + i\<close> whenever \<open>s + i\<close> is at most \<open>2^53\<close> in absolute
  value. The decimal strings of 5 + 0, 5 + 1 and 5 + 2 are "5", "6" and "7".
\<close>

theorem bulk_auto_index:
  assumes "dbPromise svc = Inr db"
    and "seriesMode data = SetMode" and "seriesIndexMode data = AutoIndex"
    and "distinct (map book_id (concat (map variants (selectedGroups fs sel))))"
  shows "\<exists>svc' n. handleBulkSave data fs sel svc = Inr (svc', n)
     \<and> (\<forall>i<length (selectedGroups fs sel). \<forall>b\<in>set (variants (selectedGroups fs sel ! i)).
          \<exists>b' str. storedBook (book_id b) svc' = Some b' \<and> seriesIndex b' = Some str
             \<and> str = toString (jsAdd (seriesIndexStart data) (int i))
             \<and> (\<bar>seriesIndexStart data + int i\<bar> \<le> 2 ^ 53 \<longrightarrow>
                   isDecimalString str (seriesIndexStart data + int i)))
     \<and> isDecimalString ''5'' (5 + int 0) \<and> isDecimalString ''6'' (5 + int 1)
     \<and> isDecimalString ''7'' (5 + int 2)"
proof -
  let ?sg = "selectedGroups fs sel"
  let ?ws = "bulkWrites data 0 ?sg"
  let ?svc' = "svc\<lparr>dbPromise := Inr (db\<lparr>books_store := fold store_put ?ws (books_store db)\<rparr>)\<rparr>"
  have r: "handleBulkSave data fs sel svc = Inr (?svc', length ?ws)"
    by (rule handleBulkSave_open [OF assms(1)])
  have a: "\<exists>b' str. storedBook (book_id b) ?svc' = Some b' \<and> seriesIndex b' = Some str
             \<and> str = toString (jsAdd (seriesIndexStart data) (int i))
             \<and> (\<bar>seriesIndexStart data + int i\<bar> \<le> 2 ^ 53 \<longrightarrow>
                   isDecimalString str (seriesIndexStart data + int i))"
    if i: "i < length ?sg" and b: "b \<in> set (variants (?sg ! i))" for i b
  proof -
    have k: "hasKeys (computeChanges data i)"
      using assms(2) by (simp add: hasKeys_def computeChanges_def)
    have "storedBook (book_id b) ?svc' = Some (spread b (computeChanges data i))"
      using stored_after_bulk [OF assms(1) i b k] assms(4) r by auto
    moreover have "seriesIndex (spread b (computeChanges data i))
                     = Some (toString (jsAdd (seriesIndexStart data) (int i)))"
      using assms(2,3) by (simp add: spread_def computeChanges_def)
    ultimately show ?thesis using toString_jsAdd_safe by blast
  qed
  have t: "isDecimalString ''5'' (5 + int 0)" "isDecimalString ''6'' (5 + int 1)"
    "isDecimalString ''7'' (5 + int 2)"
    by (simp_all add: isDecimalString_def canonicalDigits_def isDigit_def digitsValue_def)
  show ?thesis using r a t by blast
qed

text \<open>
  An instance with four displayed groups of which the last three are selected, the
  first of these by its representative \<open>e1\<close>: the positions count among the selected
  groups.
\<close>

lemma skipping_selection:
  "selectedGroups [exampleG3, twoFormats, exampleG1, exampleG2] {''e1'', ''id1'', ''id2''}
     = [twoFormats, exampleG1, exampleG2]"
  by (simp add: selectedGroups_def example_ids exampleG1_def sampleBook_def)

theorem bulk_auto_index_witness:
  "dbPromise (serviceWith []) = Inr \<lparr>books_store = [], settings_store = Map.empty\<rparr>
   \<and> seriesMode autoIndexFrom5 = SetMode \<and> seriesIndexMode autoIndexFrom5 = AutoIndex
   \<and> distinct (map book_id (concat (map variants
         (selectedGroups [exampleG3, twoFormats, exampleG1, exampleG2] {''e1'', ''id1'', ''id2''}))))
   \<and> selectedGroups [exampleG3, twoFormats, exampleG1, exampleG2] {''e1'', ''id1'', ''id2''}
        = [twoFormats, exampleG1, exampleG2]
   \<and> \<bar>seriesIndexStart autoIndexFrom5 + int 2\<bar> \<le> 2 ^ 53
   \<and> (\<exists>svc' n. handleBulkSave autoIndexFrom5 [exampleG3, twoFormats, exampleG1, exampleG2]
                    {''e1'', ''id1'', ''id2''} (serviceWith []) = Inr (svc', n)
         \<and> map_option seriesIndex (storedBook ''e1'' svc') = Some (Some ''5'')
         \<and> map_option seriesIndex (storedBook ''e2'' svc') = Some (Some ''5'')
         \<and> map_option seriesIndex (storedBook ''id1'' svc') = Some (Some ''6'')
         \<and> map_option seriesIndex (storedBook ''id2'' svc') = Some (Some ''7''))"
  (is "?h1 \<and> ?h2 \<and> ?h3 \<and> ?h4 \<and> ?h5 \<and> ?h6 \<and> ?concl")
proof -
  let ?fs = "[exampleG3, twoFormats, exampleG1, exampleG2]"
  let ?sel = "{''e1'', ''id1'', ''id2''}"
  have id1: "map book_id (variants exampleG1) = [''id1'']"
    by (simp add: exampleG1_def variants_def sampleBook_def)
  have h: ?h1 ?h2 ?h3 ?h4 ?h6
    by (simp_all add: skipping_selection serviceWith_open autoIndexFrom5_fields example_ids id1)
  obtain svc' n where r: "handleBulkSave autoIndexFrom5 ?fs ?sel (serviceWith []) = Inr (svc', n)"
    and a: "\<And>i b. i < 3 \<Longrightarrow> b \<in> set (variants ([twoFormats, exampleG1, exampleG2] ! i)) \<Longrightarrow>
               \<exists>b'. storedBook (book_id b) svc' = Some b'
                  \<and> seriesIndex b' = Some (toString (jsAdd 5 (int i)))
                  \<and> isDecimalString (toString (jsAdd 5 (int i))) (5 + int i)"
    using bulk_auto_index [OF h(1) h(2) h(3) h(4)]
    by (auto simp: skipping_selection autoIndexFrom5_fields)
  have d: "\<And>str. isDecimalString str (5 + int 0) \<Longrightarrow> str = ''5''"
    "\<And>str. isDecimalString str (5 + int 1) \<Longrightarrow> str = ''6''"
    "\<And>str. isDecimalString str (5 + int 2) \<Longrightarrow> str = ''7''"
    by (simp_all add: isDecimalString_iff decimal_small digitChar_def)
  have 1: "map_option seriesIndex (storedBook ''e1'' svc') = Some (Some ''5'')"
    using a [of 0 "sampleBook ''e1'' ''Zero'' ''Zed''"] d(1)
    by (auto simp: twoFormats_def variants_def sampleBook_def)
  have 2: "map_option seriesIndex (storedBook ''e2'' svc') = Some (Some ''5'')"
    using a [of 0 "(sampleBook ''e2'' ''zero'' ''zed'')\<lparr>fileType := ''pdf''\<rparr>"] d(1)
    by (auto simp: twoFormats_def variants_def sampleBook_def)
  have 3: "map_option seriesIndex (storedBook ''id1'' svc') = Some (Some ''6'')"
    using a [of 1 "representative exampleG1"] d(2) id1
    by (auto simp: variants_def)
  have 4: "map_option seriesIndex (storedBook ''id2'' svc') = Some (Some ''7'')"
    using a [of 2 "representative exampleG2"] d(3) example_ids
    by (auto simp: variants_def)
  from r 1 2 3 4 have ?concl by blast
  with h skipping_selection show ?thesis by blast
qed

lemma bitLength_beyond_safe: "bitLength 9007199254740993 = 54"
  by (simp add: bitLength.simps)

lemma jsAdd_beyond_safe: "jsAdd 9007199254740992 1 = 9007199254740992"
  by (simp add: jsAdd_def roundDouble_def roundNat_def bitLength_beyond_safe)

lemma decimal_2_53: "decimal 9007199254740992 = ''9007199254740992''"
  by (simp add: decimal.simps digitChar_def)

lemma toString_2_53: "toString 9007199254740992 = ''9007199254740992''"
  by (simp add: toString_def numberDigits_def decimal_2_53)

text \<open>
  Claim C2 as stated fails beyond \<open>2^53\<close>: with the start value 9007199254740992 the
  sum for position 1 is rounded to the start value, and the second selected group is
  stored with the index "9007199254740992", which is not the decimal string of
  9007199254740993.
\<close>

theorem bulk_auto_index_rounding_counterexample:
  "handleBulkSave (autoIndexFrom5\<lparr>seriesIndexStart := 9007199254740992\<rparr>)
      [exampleG1, exampleG2] {''id1'', ''id2''} (serviceWith [])
     = Inr (serviceWith
             [(representative exampleG1)\<lparr>seriesTitle := Some ''Alpha'',
                                          seriesIndex := Some ''9007199254740992''\<rparr>,
              (representative exampleG2)\<lparr>seriesTitle := Some ''Alpha'',
                                          seriesIndex := Some ''9007199254740992''\<rparr>], 2)
   \<and> storedBook ''id2'' (serviceWith
             [(representative exampleG1)\<lparr>seriesTitle := Some ''Alpha'',
                                          seriesIndex := Some ''9007199254740992''\<rparr>,
              (representative exampleG2)\<lparr>seriesTitle := Some ''Alpha'',
                                          seriesIndex := Some ''9007199254740992''\<rparr>])
     = Some ((representative exampleG2)\<lparr>seriesTitle := Some ''Alpha'',
                                          seriesIndex := Some ''9007199254740992''\<rparr>)
   \<and> selectedGroups [exampleG1, exampleG2] {''id1'', ''id2''} ! 1 = exampleG2
   \<and> isDecimalString ''9007199254740993'' (9007199254740992 + int 1)
   \<and> \<not> isDecimalString ''9007199254740992'' (9007199254740992 + int 1)"
proof -
  have w: "toString (jsAdd 9007199254740992 (int 0)) = ''9007199254740992''"
    "toString (jsAdd 9007199254740992 (int 1)) = ''9007199254740992''"
    by (simp_all add: jsAdd_beyond_safe toString_2_53 jsAdd_safe)
  have 1: "handleBulkSave (autoIndexFrom5\<lparr>seriesIndexStart := 9007199254740992\<rparr>)
      [exampleG1, exampleG2] {''id1'', ''id2''} (serviceWith [])
     = Inr (serviceWith
             [(representative exampleG1)\<lparr>seriesTitle := Some ''Alpha'',
                                          seriesIndex := Some ''9007199254740992''\<rparr>,
              (representative exampleG2)\<lparr>seriesTitle := Some ''Alpha'',
                                          seriesIndex := Some ''9007199254740992''\<rparr>], 2)"
    using w
    by (simp add: handleBulkSave_def selectedGroups_def exampleG1_def exampleG2_def sampleBook_def
          autoIndexFrom5_def keepAll_def computeChanges_def hasKeys_def variants_def spread_def
          updateBook_def addBook_def serviceWith_def)
  have 2: "storedBook ''id2'' (serviceWith
             [(representative exampleG1)\<lparr>seriesTitle := Some ''Alpha'',
                                          seriesIndex := Some ''9007199254740992''\<rparr>,
              (representative exampleG2)\<lparr>seriesTitle := Some ''Alpha'',
                                          seriesIndex := Some ''9007199254740992''\<rparr>])
     = Some ((representative exampleG2)\<lparr>seriesTitle := Some ''Alpha'',
                                          seriesIndex := Some ''9007199254740992''\<rparr>)"
    by (simp add: storedBook_def serviceWith_def store_get_def exampleG1_def exampleG2_def
          sampleBook_def)
  have 3: "selectedGroups [exampleG1, exampleG2] {''id1'', ''id2''} ! 1 = exampleG2"
    by (simp add: selectedGroups_def exampleG1_def exampleG2_def sampleBook_def)
  have 4: "isDecimalString ''9007199254740993'' (9007199254740992 + int 1)"
    "\<not> isDecimalString ''9007199254740992'' (9007199254740992 + int 1)"
    by (simp_all add: isDecimalString_def canonicalDigits_def isDigit_def digitsValue_def)
  from 1 2 3 4 show ?thesis by blast
qed

lemma unselected_ids_apart:
  assumes "distinct (map book_id (concat (map variants fs)))"
    and "g \<in> set fs" and "\<not> P g" and "b \<in> set (variants g)"
    and "w \<in> set (concat (map variants (filter P fs)))"
  shows "book_id w \<noteq> book_id b"
  using assms
proof (induction fs)
  case Nil
  then show ?case by simp
next
  case (Cons f fs)
  have d: "distinct (map book_id (concat (map variants fs)))"
    using Cons.prems(1) by simp
  have x: "book_id ` set (variants f) \<inter> book_id ` set (concat (map variants fs)) = {}"
    using Cons.prems(1) by simp
  have sub: "w \<in> set (concat (map variants (filter P fs))) \<Longrightarrow> w \<in> set (concat (map variants fs))"
    by auto
  show ?case
  proof (cases "g = f")
    case True
    with Cons.prems(3,5) have "w \<in> set (concat (map variants (filter P fs)))" by simp
    then have "w \<in> set (concat (map variants fs))" by (rule sub)
    then have "book_id w \<in> book_id ` set (concat (map variants fs))" by (rule imageI)
    moreover have "b \<in> set (variants f)" using True Cons.prems(4) by simp
    then have "book_id b \<in> book_id ` set (variants f)" by (rule imageI)
    ultimately show ?thesis using x by (metis IntI empty_iff)
  next
    case False
    then have gin: "g \<in> set fs" using Cons.prems(2) by simp
    show ?thesis
    proof (cases "P f \<and> w \<in> set (variants f)")
      case True
      then have "w \<in> set (variants f)" by simp
      then have "book_id w \<in> book_id ` set (variants f)" by (rule imageI)
      moreover have "b \<in> set (concat (map variants fs))"
        using gin Cons.prems(4) by auto
      then have "book_id b \<in> book_id ` set (concat (map variants fs))" by (rule imageI)
      ultimately show ?thesis using x by (metis IntI empty_iff)
    next
      case False
      then have "w \<in> set (concat (map variants (filter P fs)))"
        using Cons.prems(5) by (auto split: if_splits)
      then show ?thesis using Cons.IH [OF d gin Cons.prems(3) Cons.prems(4)] by simp
    qed
  qed
qed

text \<open>
  Claim C10. The groups of the batch are exactly the displayed groups whose
  representative's id is selected. With the database open and the ids of the displayed
  records distinct, every record of a displayed group whose representative's id is not
  selected is stored after the bulk edit as it was before, whichever of its other
  variants' ids are selected.
\<close>

theorem bulk_unselected_unchanged:
  assumes "dbPromise svc = Inr db"
    and "distinct (map book_id (concat (map variants fs)))"
    and "g \<in> set fs" and "book_id (representative g) \<notin> sel"
  shows "set (selectedGroups fs sel) = {g' \<in> set fs. book_id (representative g') \<in> sel}
     \<and> (\<exists>svc' n. handleBulkSave data fs sel svc = Inr (svc', n)
           \<and> (\<forall>b\<in>set (variants g). storedBook (book_id b) svc' = storedBook (book_id b) svc))"
proof -
  let ?sg = "selectedGroups fs sel"
  let ?ws = "bulkWrites data 0 ?sg"
  let ?svc' = "svc\<lparr>dbPromise := Inr (db\<lparr>books_store := fold store_put ?ws (books_store db)\<rparr>)\<rparr>"
  have r: "handleBulkSave data fs sel svc = Inr (?svc', length ?ws)"
    by (rule handleBulkSave_open [OF assms(1)])
  have u: "storedBook (book_id b) ?svc' = storedBook (book_id b) svc" if b: "b \<in> set (variants g)" for b
  proof -
    have "book_id b \<notin> book_id ` set ?ws"
    proof
      assume "book_id b \<in> book_id ` set ?ws"
      then obtain w where w: "w \<in> set ?ws" "book_id w = book_id b" by auto
      obtain g' b' where g': "g' \<in> set ?sg" "b' \<in> set (variants g')" "book_id w = book_id b'"
        using ids_bulkWrites [OF w(1)] by blast
      then have "b' \<in> set (concat (map variants (filter (\<lambda>g. book_id (representative g) \<in> sel) fs)))"
        unfolding selectedGroups_def by auto
      then have "book_id b' \<noteq> book_id b"
        by (rule unselected_ids_apart [OF assms(2) assms(3) _ b, rotated]) (use assms(4) in simp)
      with g' w show False by simp
    qed
    then show ?thesis
      using assms(1) by (simp add: storedBook_def store_get_unwritten)
  qed
  have "set ?sg = {g' \<in> set fs. book_id (representative g') \<in> sel}"
    by (auto simp: selectedGroups_def)
  with r u show ?thesis by blast
qed

theorem bulk_unselected_unchanged_witness:
  "dbPromise (serviceWith (variants twoFormats @ variants exampleG2))
     = Inr \<lparr>books_store = variants twoFormats @ variants exampleG2, settings_store = Map.empty\<rparr>
   \<and> distinct (map book_id (concat (map variants [twoFormats, exampleG2])))
   \<and> twoFormats \<in> set [twoFormats, exampleG2]
   \<and> book_id (representative twoFormats) \<notin> {''e2'', ''id2''}
   \<and> ''e2'' \<in> book_id ` set (others twoFormats)
   \<and> set (selectedGroups [twoFormats, exampleG2] {''e2'', ''id2''}) = {exampleG2}
   \<and> (\<exists>svc' n. handleBulkSave autoIndexFrom5 [twoFormats, exampleG2] {''e2'', ''id2''}
                    (serviceWith (variants twoFormats @ variants exampleG2)) = Inr (svc', n)
         \<and> storedBook ''e1'' svc' = Some (sampleBook ''e1'' ''Zero'' ''Zed'')
         \<and> storedBook ''e2'' svc' = Some ((sampleBook ''e2'' ''zero'' ''zed'')\<lparr>fileType := ''pdf''\<rparr>))"
  (is "?h1 \<and> ?h2 \<and> ?h3 \<and> ?h4 \<and> ?h5 \<and> ?h6 \<and> ?concl")
proof -
  let ?svc = "serviceWith (variants twoFormats @ variants exampleG2)"
  have h: ?h1 ?h2 ?h3 ?h4 ?h5
    by (simp_all add: serviceWith_open example_ids) (simp add: twoFormats_def sampleBook_def)
  have s: ?h6 by (auto simp: selectedGroups_def example_ids)
  have before: "storedBook ''e1'' ?svc = Some (sampleBook ''e1'' ''Zero'' ''Zed'')"
    "storedBook ''e2'' ?svc = Some ((sampleBook ''e2'' ''zero'' ''zed'')\<lparr>fileType := ''pdf''\<rparr>)"
    by (simp_all add: storedBook_def serviceWith_def store_get_def variants_def twoFormats_def
          sampleBook_def)
  obtain svc' n where r: "handleBulkSave autoIndexFrom5 [twoFormats, exampleG2] {''e2'', ''id2''} ?svc
                            = Inr (svc', n)"
    and u: "\<forall>b\<in>set (variants twoFormats). storedBook (book_id b) svc' = storedBook (book_id b) ?svc"
    using bulk_unselected_unchanged [OF h(1) h(2) h(3) h(4), of autoIndexFrom5] by blast
  have "storedBook ''e1'' svc' = storedBook ''e1'' ?svc" "storedBook ''e2'' svc' = storedBook ''e2'' ?svc"
    using u by (simp_all add: variants_def twoFormats_def sampleBook_def)
  with before r have ?concl by auto
  with h s show ?thesis by blast
qed

section \<open>Facts about the single-record edit\<close>

lemma handleUpdateBook_writes:
  "handleUpdateBook u books svc
     = updateBooks (u # groupPropagation u books @ seriesPropagation u books) svc"
  by (simp add: handleUpdateBook_def)

lemma distinct_groupPropagation:
  "distinct (map book_id books) \<Longrightarrow> distinct (map book_id (groupPropagation u books))"
  by (auto simp: groupPropagation_def Let_def comp_def distinct_map_filter split: option.splits)

lemma distinct_seriesPropagation:
  "distinct (map book_id books) \<Longrightarrow> distinct (map book_id (seriesPropagation u books))"
  by (auto simp: seriesPropagation_def Let_def comp_def distinct_map_filter split: option.splits)

lemma in_groupPropagation:
  assumes "b \<in> set books" and "book_id b \<noteq> book_id u"
    and "book_group u = Some g" and "trim g \<noteq> []" and "truthy (groupColor u)"
    and "book_group b = Some g" and "groupColor b \<noteq> groupColor u"
  shows "b\<lparr>groupColor := groupColor u\<rparr> \<in> set (groupPropagation u books)"
proof -
  have g: "g \<noteq> []" using assms(4) by (auto simp: trim_def)
  have "b \<in> set (filter (\<lambda>b. book_group b = book_group u \<and> book_id b \<noteq> book_id u) books)"
    using assms by simp
  then have ne: "filter (\<lambda>b. book_group b = book_group u \<and> book_id b \<noteq> book_id u) books \<noteq> []"
    by (metis empty_iff empty_set)
  show ?thesis
    using assms g ne by (simp add: groupPropagation_def Let_def image_iff) blast
qed

lemma in_seriesPropagation:
  assumes "b \<in> set books" and "book_id b \<noteq> book_id u"
    and "seriesTitle u = Some s" and "trim s \<noteq> []" and "truthy (seriesColor u)"
    and "seriesTitle b = Some s" and "seriesColor b \<noteq> seriesColor u"
  shows "b\<lparr>seriesColor := seriesColor u\<rparr> \<in> set (seriesPropagation u books)"
proof -
  have g: "s \<noteq> []" using assms(4) by (auto simp: trim_def)
  have "b \<in> set (filter (\<lambda>b. seriesTitle b = seriesTitle u \<and> book_id b \<noteq> book_id u) books)"
    using assms by simp
  then have ne: "filter (\<lambda>b. seriesTitle b = seriesTitle u \<and> book_id b \<noteq> book_id u) books \<noteq> []"
    by (metis empty_iff empty_set)
  show ?thesis
    using assms g ne by (simp add: seriesPropagation_def Let_def image_iff) blast
qed

text \<open>
  What the two passes leave in the store, with the database open and the ids of the
  loaded records distinct. A record that only the group pass writes is stored with the
  group colour of the edited record \<open>u\<close>; a record that the series pass writes is
  stored as it was loaded, with the series colour of \<open>u\<close>.
\<close>

lemma update_stored_records:
  assumes "dbPromise svc = Inr db" and "distinct (map book_id books)"
    and "b \<in> set books" and "book_id b \<noteq> book_id u"
    and "c \<in> set books" and "book_id c \<noteq> book_id u"
  shows "\<exists>svc'. handleUpdateBook u books svc = Inr svc'
     \<and> (book_group u = Some g \<and> trim g \<noteq> [] \<and> truthy (groupColor u)
          \<and> book_group b = Some g \<and> groupColor b \<noteq> groupColor u
          \<and> book_id b \<notin> book_id ` set (seriesPropagation u books)
        \<longrightarrow> storedBook (book_id b) svc' = Some (b\<lparr>groupColor := groupColor u\<rparr>))
     \<and> (seriesTitle u = Some s \<and> trim s \<noteq> [] \<and> truthy (seriesColor u)
          \<and> seriesTitle c = Some s \<and> seriesColor c \<noteq> seriesColor u
        \<longrightarrow> storedBook (book_id c) svc' = Some (c\<lparr>seriesColor := seriesColor u\<rparr>))"
proof -
  let ?gp = "groupPropagation u books"
  let ?sp = "seriesPropagation u books"
  let ?st = "fold store_put ?gp (store_put u (books_store db))"
  let ?svc' = "svc\<lparr>dbPromise := Inr (db\<lparr>books_store := fold store_put ?sp ?st\<rparr>)\<rparr>"
  have r: "handleUpdateBook u books svc = Inr ?svc'"
    by (simp add: handleUpdateBook_writes updateBooks_open [OF assms(1)])
  have sb: "storedBook k ?svc' = store_get k (fold store_put ?sp ?st)" for k
    by (simp add: storedBook_def)
  have 1: "storedBook (book_id b) ?svc' = Some (b\<lparr>groupColor := groupColor u\<rparr>)"
    if c: "book_group u = Some g" "trim g \<noteq> []" "truthy (groupColor u)"
      "book_group b = Some g" "groupColor b \<noteq> groupColor u"
      "book_id b \<notin> book_id ` set ?sp"
  proof -
    let ?w = "b\<lparr>groupColor := groupColor u\<rparr>"
    have m: "?w \<in> set ?gp"
      using in_groupPropagation [OF assms(3,4) c(1-5)] .
    have "store_get (book_id b) (fold store_put ?sp ?st) = store_get (book_id b) ?st"
      using c(6) by (rule store_get_unwritten)
    also have "\<dots> = Some ?w"
      using store_get_written_distinct [OF m distinct_groupPropagation [OF assms(2)]] by simp
    finally show ?thesis by (simp add: sb)
  qed
  have 2: "storedBook (book_id c) ?svc' = Some (c\<lparr>seriesColor := seriesColor u\<rparr>)"
    if c: "seriesTitle u = Some s" "trim s \<noteq> []" "truthy (seriesColor u)"
      "seriesTitle c = Some s" "seriesColor c \<noteq> seriesColor u"
  proof -
    let ?w = "c\<lparr>seriesColor := seriesColor u\<rparr>"
    have m: "?w \<in> set ?sp"
      using in_seriesPropagation [OF assms(5,6) c(1-5)] .
    have "store_get (book_id c) (fold store_put ?sp ?st) = Some ?w"
      using store_get_written_distinct [OF m distinct_seriesPropagation [OF assms(2)]] by simp
    then show ?thesis by (simp add: sb)
  qed
  show ?thesis using r 1 2 by blast
qed

lemma tagged_fields:
  "book_id (tagged i g gc s sc) = i" "book_group (tagged i g gc s sc) = g"
  "groupColor (tagged i g gc s sc) = gc" "seriesTitle (tagged i g gc s sc) = s"
  "seriesColor (tagged i g gc s sc) = sc"
  by (simp_all add: tagged_def sampleBook_def)

lemma tagged_eq:
  "(tagged i g gc s sc)\<lparr>groupColor := gc'\<rparr> = tagged i g gc' s sc"
  "(tagged i g gc s sc)\<lparr>seriesColor := sc'\<rparr> = tagged i g gc s sc'"
  by (simp_all add: tagged_def)

lemma trim_examples: "trim ''Sci-Fi'' \<noteq> []" "trim ''Alpha'' \<noteq> []" "trim '' '' = []"
  by (simp_all add: trim_def isWhiteSpace_def)

text \<open>
  The propagation example of the specification: the record of the same group, which has
  no series, gets the new group colour.
\<close>

lemma update_example_of_specification:
  "dbPromise (serviceWith
      [tagged ''a'' (Some ''Sci-Fi'') None (Some ''Alpha'') None,
       tagged ''b'' (Some ''Sci-Fi'') (Some ''#ff0000'') None None,
       tagged ''c'' None None (Some ''Alpha'') None])
     = Inr \<lparr>books_store =
              [tagged ''a'' (Some ''Sci-Fi'') None (Some ''Alpha'') None,
               tagged ''b'' (Some ''Sci-Fi'') (Some ''#ff0000'') None None,
               tagged ''c'' None None (Some ''Alpha'') None],
            settings_store = Map.empty\<rparr>
   \<and> trim ''Sci-Fi'' \<noteq> [] \<and> trim ''Alpha'' \<noteq> []
   \<and> truthy (Some ''#00ff00'') \<and> truthy (Some ''#112233'')
   \<and> ''b'' \<notin> book_id ` set (seriesPropagation
         (tagged ''a'' (Some ''Sci-Fi'') (Some ''#00ff00'') (Some ''Alpha'') (Some ''#112233''))
         [tagged ''a'' (Some ''Sci-Fi'') None (Some ''Alpha'') None,
          tagged ''b'' (Some ''Sci-Fi'') (Some ''#ff0000'') None None,
          tagged ''c'' None None (Some ''Alpha'') None])
   \<and> (\<exists>svc'. handleUpdateBook
          (tagged ''a'' (Some ''Sci-Fi'') (Some ''#00ff00'') (Some ''Alpha'') (Some ''#112233''))
          [tagged ''a'' (Some ''Sci-Fi'') None (Some ''Alpha'') None,
           tagged ''b'' (Some ''Sci-Fi'') (Some ''#ff0000'') None None,
           tagged ''c'' None None (Some ''Alpha'') None]
          (serviceWith
            [tagged ''a'' (Some ''Sci-Fi'') None (Some ''Alpha'') None,
             tagged ''b'' (Some ''Sci-Fi'') (Some ''#ff0000'') None None,
             tagged ''c'' None None (Some ''Alpha'') None]) = Inr svc'
        \<and> storedBook ''b'' svc' = Some (tagged ''b'' (Some ''Sci-Fi'') (Some ''#00ff00'') None None)
        \<and> storedBook ''c'' svc' = Some (tagged ''c'' None None (Some ''Alpha'') (Some ''#112233'')))"
  (is "?h1 \<and> ?h2 \<and> ?h3 \<and> ?h4 \<and> ?h5 \<and> ?h6 \<and> ?concl")
proof -
  let ?u = "tagged ''a'' (Some ''Sci-Fi'') (Some ''#00ff00'') (Some ''Alpha'') (Some ''#112233'')"
  let ?b = "tagged ''b'' (Some ''Sci-Fi'') (Some ''#ff0000'') None None"
  let ?c = "tagged ''c'' None None (Some ''Alpha'') None"
  let ?books = "[tagged ''a'' (Some ''Sci-Fi'') None (Some ''Alpha'') None, ?b, ?c]"
  have h: ?h1 ?h2 ?h3 ?h4 ?h5
    by (simp_all add: serviceWith_open trim_examples truthy_def)
  have h6: ?h6
    by (simp add: seriesPropagation_def tagged_fields trim_examples truthy_def)
  have "?concl"
    using update_stored_records [OF h(1), of ?books ?b ?u ?c "''Sci-Fi''" "''Alpha''"] h6
    by (simp add: tagged_fields tagged_eq trim_examples truthy_def)
  with h h6 show ?thesis by blast
qed

text \<open>
  Both passes are guarded by \<open>trim() !== ''\<close>: for a group name that is not empty but
  blank nothing is propagated.
\<close>

lemma update_blank_group_writes_nothing:
  "handleUpdateBook (tagged ''a'' (Some '' '') (Some ''#00ff00'') None None)
      [tagged ''a'' (Some '' '') None None None,
       tagged ''b'' (Some '' '') (Some ''#ff0000'') None None]
      (serviceWith [tagged ''a'' (Some '' '') None None None,
                    tagged ''b'' (Some '' '') (Some ''#ff0000'') None None])
     = Inr (serviceWith [tagged ''a'' (Some '' '') (Some ''#00ff00'') None None,
                         tagged ''b'' (Some '' '') (Some ''#ff0000'') None None])
   \<and> storedBook ''b'' (serviceWith [tagged ''a'' (Some '' '') (Some ''#00ff00'') None None,
                                    tagged ''b'' (Some '' '') (Some ''#ff0000'') None None])
     = Some (tagged ''b'' (Some '' '') (Some ''#ff0000'') None None)
   \<and> book_group (tagged ''a'' (Some '' '') (Some ''#00ff00'') None None) = Some '' ''
   \<and> '' '' \<noteq> []
   \<and> groupColor (tagged ''a'' (Some '' '') (Some ''#00ff00'') None None) = Some ''#00ff00''
   \<and> book_group (tagged ''b'' (Some '' '') (Some ''#ff0000'') None None) = Some '' ''
   \<and> groupColor (tagged ''b'' (Some '' '') (Some ''#ff0000'') None None) = Some ''#ff0000''"
  by (simp add: handleUpdateBook_def groupPropagation_def seriesPropagation_def tagged_fields
        trim_examples updateBook_def addBook_def serviceWith_def storedBook_def store_get_def)

text \<open>
  Claim C3 at a failing input. Records \<open>a\<close> and \<open>b\<close> share the group Sci-Fi and the
  series Alpha; \<open>a\<close> is edited to the group colour \<open>#00ff00\<close> and the series colour
  \<open>#112233\<close>. Both passes write \<open>b\<close>, each from the record as it was loaded: the
  group pass with the new group colour, then the series pass with the new series colour
  and the old group colour. \<open>b\<close> is stored with the group colour \<open>#ff0000\<close>, where
  the claim says \<open>#00ff00\<close>.
\<close>

theorem update_loses_group_color:
  "handleUpdateBook
      (tagged ''a'' (Some ''Sci-Fi'') (Some ''#00ff00'') (Some ''Alpha'') (Some ''#112233''))
      [tagged ''a'' (Some ''Sci-Fi'') None (Some ''Alpha'') None,
       tagged ''b'' (Some ''Sci-Fi'') (Some ''#ff0000'') (Some ''Alpha'') None]
      (serviceWith [tagged ''a'' (Some ''Sci-Fi'') None (Some ''Alpha'') None,
                    tagged ''b'' (Some ''Sci-Fi'') (Some ''#ff0000'') (Some ''Alpha'') None])
     = Inr (serviceWith
             [tagged ''a'' (Some ''Sci-Fi'') (Some ''#00ff00'') (Some ''Alpha'') (Some ''#112233''),
              tagged ''b'' (Some ''Sci-Fi'') (Some ''#ff0000'') (Some ''Alpha'') (Some ''#112233'')])
   \<and> storedBook ''b'' (serviceWith
             [tagged ''a'' (Some ''Sci-Fi'') (Some ''#00ff00'') (Some ''Alpha'') (Some ''#112233''),
              tagged ''b'' (Some ''Sci-Fi'') (Some ''#ff0000'') (Some ''Alpha'') (Some ''#112233'')])
     = Some (tagged ''b'' (Some ''Sci-Fi'') (Some ''#ff0000'') (Some ''Alpha'') (Some ''#112233''))
   \<and> groupPropagation
        (tagged ''a'' (Some ''Sci-Fi'') (Some ''#00ff00'') (Some ''Alpha'') (Some ''#112233''))
        [tagged ''a'' (Some ''Sci-Fi'') None (Some ''Alpha'') None,
         tagged ''b'' (Some ''Sci-Fi'') (Some ''#ff0000'') (Some ''Alpha'') None]
     = [tagged ''b'' (Some ''Sci-Fi'') (Some ''#00ff00'') (Some ''Alpha'') None]
   \<and> seriesPropagation
        (tagged ''a'' (Some ''Sci-Fi'') (Some ''#00ff00'') (Some ''Alpha'') (Some ''#112233''))
        [tagged ''a'' (Some ''Sci-Fi'') None (Some ''Alpha'') None,
         tagged ''b'' (Some ''Sci-Fi'') (Some ''#ff0000'') (Some ''Alpha'') None]
     = [tagged ''b'' (Some ''Sci-Fi'') (Some ''#ff0000'') (Some ''Alpha'') (Some ''#112233'')]
   \<and> groupColor (tagged ''b'' (Some ''Sci-Fi'') (Some ''#ff0000'') (Some ''Alpha'') (Some ''#112233''))
     = Some ''#ff0000''
   \<and> groupColor (tagged ''a'' (Some ''Sci-Fi'') (Some ''#00ff00'') (Some ''Alpha'') (Some ''#112233''))
     = Some ''#00ff00''"
  by (simp add: handleUpdateBook_def groupPropagation_def seriesPropagation_def tagged_fields
        tagged_eq trim_examples truthy_def updateBook_def addBook_def serviceWith_def
        storedBook_def store_get_def)

section \<open>Facts about the group facets\<close>

lemma trim_Nil [simp]: "trim [] = []"
  by (simp add: trim_def)

lemma map_of_keyed: "map_of (map (\<lambda>g. (g, F g)) ks) k = (if k \<in> set ks then Some (F k) else None)"
  by (induction ks) auto

lemma map_set_absent:
  "k \<notin> set ks \<Longrightarrow> map_set k v (map (\<lambda>g. (g, F g)) ks) = map (\<lambda>g. (g, F g)) ks @ [(k, v)]"
  by (induction ks) auto

lemma map_set_present:
  "k \<in> set ks \<Longrightarrow> distinct ks \<Longrightarrow>
   map_set k v (map (\<lambda>g. (g, F g)) ks) = map (\<lambda>g. (g, if g = k then v else F g)) ks"
proof (induction ks)
  case Nil
  then show ?case by simp
next
  case (Cons a ks)
  show ?case
  proof (cases "a = k")
    case True
    with Cons.prems have "k \<notin> set ks" by simp
    then have "map (\<lambda>g. (g, F g)) ks = map (\<lambda>g. (g, if g = k then v else F g)) ks"
      by (intro map_cong) auto
    with True show ?thesis by simp
  next
    case False
    with Cons show ?thesis by simp
  qed
qed

lemma map_filter_snoc:
  "List.map_filter f (xs @ [x]) =
     (case f x of None \<Rightarrow> List.map_filter f xs | Some y \<Rightarrow> List.map_filter f xs @ [y])"
  by (simp add: List.map_filter_def split: option.splits)

lemma discoveryOrder_snoc:
  "discoveryOrder (xs @ [x]) =
     (case countedName x of
        None \<Rightarrow> discoveryOrder xs
      | Some g \<Rightarrow> if g \<in> set (discoveryOrder xs) then discoveryOrder xs
                  else discoveryOrder xs @ [g])"
  by (simp add: discoveryOrder_def map_filter_snoc split: option.splits)

lemma distinct_discoveryOrder: "distinct (discoveryOrder books)"
  by (simp add: discoveryOrder_def)

lemma countedName_Some: "countedName x = Some g \<longleftrightarrow> book_group x = Some g \<and> trim g \<noteq> []"
  by (cases "book_group x") (auto simp: countedName_def)

lemma set_map_filter: "set (List.map_filter f xs) = {y. \<exists>x\<in>set xs. f x = Some y}"
  by (induction xs) (auto split: option.splits)

lemma set_discoveryOrder:
  "set (discoveryOrder books) = {g. trim g \<noteq> [] \<and> (\<exists>b\<in>set books. book_group b = Some g)}"
  by (auto simp: discoveryOrder_def set_map_filter countedName_Some)

lemma countedName_None:
  assumes "countedName x = None" and "g \<in> set (discoveryOrder xs)"
  shows "book_group x \<noteq> Some g"
proof
  assume "book_group x = Some g"
  moreover have "trim g \<noteq> []" using assms(2) by (simp add: set_discoveryOrder)
  ultimately have "countedName x = Some g" by (simp add: countedName_Some)
  with assms(1) show False by simp
qed

lemma facetOf_snoc_other:
  "book_group x \<noteq> Some g \<Longrightarrow> facetOf (xs @ [x]) g = facetOf xs g"
  by (simp add: facetOf_def groupMembers_def)

lemma facetOf_snoc_same:
  "book_group x = Some g \<Longrightarrow>
   facetOf (xs @ [x]) g =
     \<lparr>color = (if truthy (groupColor x) then groupColor x else color (facetOf xs g)),
      count = count (facetOf xs g) + 1\<rparr>"
  by (simp add: facetOf_def groupMembers_def lastSeenColor_def)

lemma facetOf_unseen:
  "g \<notin> set (discoveryOrder xs) \<Longrightarrow> trim g \<noteq> [] \<Longrightarrow> groupMembers g xs = []"
  by (simp add: set_discoveryOrder groupMembers_def filter_empty_conv)

lemma facetsStep_closed:
  assumes "m = map (\<lambda>g. (g, facetOf xs g)) (discoveryOrder xs)"
  shows "facetsStep x m = map (\<lambda>g. (g, facetOf (xs @ [x]) g)) (discoveryOrder (xs @ [x]))"
proof (cases "countedName x")
  case None
  then have s: "facetsStep x m = m"
    by (auto simp: facetsStep_def countedName_def split: option.splits if_splits)
  have "map (\<lambda>g. (g, facetOf (xs @ [x]) g)) (discoveryOrder xs)
        = map (\<lambda>g. (g, facetOf xs g)) (discoveryOrder xs)"
    using countedName_None [OF None] by (intro map_cong) (auto simp: facetOf_snoc_other)
  with s None assms show ?thesis by (simp add: discoveryOrder_snoc)
next
  case (Some g)
  then have g: "book_group x = Some g" "trim g \<noteq> []" by (simp_all add: countedName_Some)
  then have ne: "g \<noteq> []" by auto
  let ?v = "\<lparr>color = (if truthy (groupColor x) then groupColor x
                       else case map_of m g of None \<Rightarrow> None | Some e \<Rightarrow> color e),
              count = (case map_of m g of None \<Rightarrow> 0 | Some e \<Rightarrow> count e) + 1\<rparr>"
  have s: "facetsStep x m = map_set g ?v m"
    using g ne by (simp add: facetsStep_def Let_def)
  show ?thesis
  proof (cases "g \<in> set (discoveryOrder xs)")
    case True
    have v: "?v = facetOf (xs @ [x]) g"
      using True g by (simp add: assms map_of_keyed facetOf_snoc_same)
    have "map_set g ?v m
          = map (\<lambda>h. (h, if h = g then ?v else facetOf xs h)) (discoveryOrder xs)"
      unfolding assms using True distinct_discoveryOrder by (rule map_set_present)
    also have "\<dots> = map (\<lambda>h. (h, facetOf (xs @ [x]) h)) (discoveryOrder xs)"
      using g v by (intro map_cong) (auto simp: facetOf_snoc_other)
    finally show ?thesis using s Some True by (simp add: discoveryOrder_snoc)
  next
    case False
    have e: "groupMembers g xs = []" using False g(2) by (rule facetOf_unseen)
    have v: "?v = facetOf (xs @ [x]) g"
      using False g e
      by (simp add: assms map_of_keyed facetOf_snoc_same) (simp add: facetOf_def lastSeenColor_def)
    have "map_set g ?v m = map (\<lambda>h. (h, facetOf xs h)) (discoveryOrder xs) @ [(g, ?v)]"
      unfolding assms using False by (rule map_set_absent)
    also have "map (\<lambda>h. (h, facetOf xs h)) (discoveryOrder xs)
               = map (\<lambda>h. (h, facetOf (xs @ [x]) h)) (discoveryOrder xs)"
    proof (intro map_cong refl)
      fix h assume "h \<in> set (discoveryOrder xs)"
      with False have "h \<noteq> g" by auto
      with g have "book_group x \<noteq> Some h" by simp
      then show "(h, facetOf xs h) = (h, facetOf (xs @ [x]) h)"
        by (simp add: facetOf_snoc_other)
    qed
    finally show ?thesis using s Some False v by (simp add: discoveryOrder_snoc)
  qed
qed

lemma facets_closed_form:
  "fold facetsStep books [] = map (\<lambda>g. (g, facetOf books g)) (discoveryOrder books)"
proof (induction books rule: rev_induct)
  case Nil
  then show ?case by (simp add: discoveryOrder_def List.map_filter_def)
next
  case (snoc x xs)
  then show ?case by (simp add: facetsStep_closed)
qed

lemma consistent_count: "consistentComparator (\<lambda>a b. int (count (snd b)) - int (count (snd a)))"
  by (auto simp: consistentComparator_def sgn_if)

text \<open>
  Claim C8, as amended. \<open>uniqueGroups\<close> returns exactly one entry per distinct group
  name that has a character that is not white space; each entry carries the number of
  records with that group name and the group colour of the last of them, in the order of
  the input, that has a non-empty one (none when no member has one); the entries are
  ordered by count descending, and the entries of equal count stand in the order in
  which their names first occur in the input.
\<close>

theorem group_facets:
  "distinct (map fst (uniqueGroups books))
   \<and> set (map fst (uniqueGroups books))
       = {g. trim g \<noteq> [] \<and> (\<exists>b\<in>set books. book_group b = Some g)}
   \<and> (\<forall>e\<in>set (uniqueGroups books).
         count (snd e) = length (groupMembers (fst e) books)
       \<and> color (snd e) = lastSeenColor (groupMembers (fst e) books))
   \<and> sorted_wrt (\<lambda>a b. count (snd b) \<le> count (snd a)) (uniqueGroups books)
   \<and> map fst (filter (\<lambda>e. count (snd e) = n) (uniqueGroups books))
       = filter (\<lambda>g. length (groupMembers g books) = n) (discoveryOrder books)"
proof -
  let ?cmp = "\<lambda>a b. int (count (snd b)) - int (count (snd a))"
  let ?M = "map (\<lambda>g. (g, facetOf books g)) (discoveryOrder books)"
  have U: "uniqueGroups books = sortBy ?cmp ?M"
    by (simp add: uniqueGroups_def facets_closed_form)
  have fstM: "map fst ?M = discoveryOrder books" by (simp add: comp_def)
  have eq: "mset (map fst (sortBy ?cmp ?M)) = mset (map fst ?M)"
    by (simp only: mset_map mset_sortBy)
  have "distinct (map fst ?M)"
    unfolding fstM by (rule distinct_discoveryOrder)
  then have 1: "distinct (map fst (sortBy ?cmp ?M))"
    by (simp only: mset_eq_imp_distinct_iff [OF eq])
  have "set (map fst (sortBy ?cmp ?M)) = set (map fst ?M)"
    by (simp only: set_map set_sortBy)
  then have 2: "set (map fst (sortBy ?cmp ?M))
                  = {g. trim g \<noteq> [] \<and> (\<exists>b\<in>set books. book_group b = Some g)}"
    unfolding fstM set_discoveryOrder .
  have 3: "\<forall>e\<in>set (sortBy ?cmp ?M).
             count (snd e) = length (groupMembers (fst e) books)
           \<and> color (snd e) = lastSeenColor (groupMembers (fst e) books)"
    by (auto simp: set_sortBy facetOf_def)
  have "sorted_wrt (\<lambda>a b. ?cmp a b \<le> 0) (sortBy ?cmp ?M)"
    by (rule sorted_sortBy [OF consistent_count])
  then have 4: "sorted_wrt (\<lambda>a b. count (snd b) \<le> count (snd a)) (sortBy ?cmp ?M)"
    by simp
  have "filter (\<lambda>e. count (snd e) = n) (sortBy ?cmp ?M) = filter (\<lambda>e. count (snd e) = n) ?M"
    by (rule filter_sortBy_stable) simp
  then have 5: "map fst (filter (\<lambda>e. count (snd e) = n) (sortBy ?cmp ?M))
                  = filter (\<lambda>g. length (groupMembers g books) = n) (discoveryOrder books)"
    by (simp add: filter_map comp_def facetOf_def)
  from 1 2 3 4 5 show ?thesis unfolding U by blast
qed

lemma shelf_trims:
  "trim ''Sci-Fi'' = ''Sci-Fi''" "trim ''Cooking'' = ''Cooking''" "trim ''Classics'' = ''Classics''"
  "trim '' '' = []"
  by (simp_all add: trim_def isWhiteSpace_def)

lemma uniqueGroups_shelf:
  "uniqueGroups shelf =
     [(''Sci-Fi'', \<lparr>color = Some ''#111111'', count = 2\<rparr>),
      (''Cooking'', \<lparr>color = None, count = 1\<rparr>),
      (''Classics'', \<lparr>color = Some ''#333333'', count = 1\<rparr>)]"
  by (simp add: uniqueGroups_def shelf_def facetsStep_def tagged_fields shelf_trims truthy_def
        sortBy_def)

theorem group_facets_witness:
  "(''Sci-Fi'', \<lparr>color = Some ''#111111'', count = 2\<rparr>) \<in> set (uniqueGroups shelf)
   \<and> length (groupMembers ''Sci-Fi'' shelf) = 2
   \<and> lastSeenColor (groupMembers ''Sci-Fi'' shelf) = Some ''#111111''
   \<and> map fst (uniqueGroups shelf) = [''Sci-Fi'', ''Cooking'', ''Classics'']
   \<and> filter (\<lambda>g. length (groupMembers g shelf) = 1) (discoveryOrder shelf)
       = [''Cooking'', ''Classics'']"
  using group_facets [of shelf 1]
  by (simp add: uniqueGroups_shelf)

text \<open>
  Claim C8 as stated fails for a group name that is not empty but blank: a record with
  the group \<open>" "\<close> gets no entry.
\<close>

theorem blank_group_has_no_facet_counterexample:
  "uniqueGroups [tagged ''a'' (Some '' '') (Some ''#555555'') None None] = []
   \<and> book_group (tagged ''a'' (Some '' '') (Some ''#555555'') None None) = Some '' ''
   \<and> '' '' \<noteq> []"
  by (simp add: uniqueGroups_def facetsStep_def tagged_fields shelf_trims sortBy_def)

section \<open>Grouping and the group sort at particular inputs\<close>

text \<open>
  Claim C4 at a failing input. The key joins the normalised title and author with
  \<open>|\<close>, so the records (title \<open>a|b\<close>, author \<open>c\<close>) and (title \<open>a\<close>, author
  \<open>b|c\<close>) get the same key and land in one group, although neither their titles nor
  their authors are equal after normalisation.
\<close>

theorem grouping_key_collision:
  "groupedLibrary [sampleBook ''k1'' ''a|b'' ''c'', sampleBook ''k2'' ''a'' ''b|c'']
     = [BookGroup (sampleBook ''k1'' ''a|b'' ''c'') [sampleBook ''k2'' ''a'' ''b|c'']]
   \<and> toLowerCase (trim ''a|b'') \<noteq> toLowerCase (trim ''a'')
   \<and> toLowerCase (trim ''c'') \<noteq> toLowerCase (trim ''b|c'')"
  by (simp add: groupedLibrary_def groupsStep_def identityKey_def sampleBook_def push_def
        trim_def isWhiteSpace_def toLowerCase_def toLowerCaseChar_def)

text \<open>
  Claim C6 at a failing input. A missing group is compared as the name \<open>zzz\<close>. For a
  collation that puts \<open>zzzz\<close> after \<open>zzz\<close>, the group whose representative has the
  group name \<open>zzzz\<close> comes out after the group whose representative has no group.
\<close>

theorem group_sort_sentinel:
  "0 < lc ''zzzz'' ''zzz'' \<Longrightarrow>
   filteredAndSortedGroups lc lcn
     [BookGroup (tagged ''Alpha'' (Some ''zzzz'') None None None) [],
      BookGroup (tagged ''Beta'' None None None None) []] [] None Group
   = [BookGroup (tagged ''Beta'' None None None None) [],
      BookGroup (tagged ''Alpha'' (Some ''zzzz'') None None None) []]"
  by (simp add: filteredAndSortedGroups_def matchesSearch_def matchesGroup_def toLowerCase_def
        includes_str_Nil truthy_def sortBy_def compareGroup_def orSentinel_def orEmpty_def
        tagged_fields Let_def)

theorem group_sort_sentinel_witness:
  "0 < plainCompare ''zzzz'' ''zzz''
   \<and> filteredAndSortedGroups plainCompare numericCompare
     [BookGroup (tagged ''Alpha'' (Some ''zzzz'') None None None) [],
      BookGroup (tagged ''Beta'' None None None None) []] [] None Group
   = [BookGroup (tagged ''Beta'' None None None None) [],
      BookGroup (tagged ''Alpha'' (Some ''zzzz'') None None None) []]"
proof -
  have h: "0 < plainCompare ''zzzz'' ''zzz''"
    by (simp add: plainCompare_def compareKeys_def plainKey_def toLowerCase_def
          toLowerCaseChar_def isUpper_def)
  show ?thesis using h group_sort_sentinel [of plainCompare numericCompare] by simp
qed

section \<open>Facts about the grouping\<close>

lemma keys_snoc:
  "rev (remdups (rev (map f (xs @ [x])))) =
     (if f x \<in> f ` set xs then rev (remdups (rev (map f xs)))
      else rev (remdups (rev (map f xs))) @ [f x])"
  by simp

lemma groupsStep_closed:
  assumes "m = map (\<lambda>k. (k, BookGroup (hd (filter (\<lambda>b. identityKey b = k) xs))
                                       (tl (filter (\<lambda>b. identityKey b = k) xs))))
                 (rev (remdups (rev (map identityKey xs))))"
  shows "groupsStep x m
         = map (\<lambda>k. (k, BookGroup (hd (filter (\<lambda>b. identityKey b = k) (xs @ [x])))
                                   (tl (filter (\<lambda>b. identityKey b = k) (xs @ [x])))))
             (rev (remdups (rev (map identityKey (xs @ [x])))))"
proof -
  let ?ms = "\<lambda>ys k. filter (\<lambda>b. identityKey b = k) ys"
  let ?F = "\<lambda>ys k. BookGroup (hd (?ms ys k)) (tl (?ms ys k))"
  let ?ks = "rev (remdups (rev (map identityKey xs)))"
  let ?k0 = "identityKey x"
  have other: "?F (xs @ [x]) k = ?F xs k" if "k \<noteq> ?k0" for k
    using that by auto
  show ?thesis
  proof (cases "?k0 \<in> set ?ks")
    case True
    then have ne: "?ms xs ?k0 \<noteq> []" by (auto simp: filter_empty_conv)
    have v: "push (?F xs ?k0) x = ?F (xs @ [x]) ?k0"
      using ne by (simp add: push_def)
    have "groupsStep x m = map_set ?k0 (push (?F xs ?k0) x) m"
      using True by (simp add: groupsStep_def assms map_of_keyed Let_def)
    also have "\<dots> = map (\<lambda>k. (k, if k = ?k0 then push (?F xs ?k0) x else ?F xs k)) ?ks"
      unfolding assms using True by (intro map_set_present) simp_all
    also have "\<dots> = map (\<lambda>k. (k, ?F (xs @ [x]) k)) ?ks"
      using v other by (intro map_cong) auto
    finally have r: "groupsStep x m = map (\<lambda>k. (k, ?F (xs @ [x]) k)) ?ks" .
    have "rev (remdups (rev (map identityKey (xs @ [x])))) = ?ks" using True by simp
    with r show ?thesis by (simp only:)
  next
    case False
    then have e: "?ms xs ?k0 = []" by (simp add: filter_empty_conv image_iff) metis
    have "groupsStep x m = map_set ?k0 (BookGroup x []) m"
      using False by (simp add: groupsStep_def assms map_of_keyed Let_def)
    also have "\<dots> = map (\<lambda>k. (k, ?F xs k)) ?ks @ [(?k0, BookGroup x [])]"
      unfolding assms using False by (intro map_set_absent)
    also have "map (\<lambda>k. (k, ?F xs k)) ?ks = map (\<lambda>k. (k, ?F (xs @ [x]) k)) ?ks"
      using False other by (intro map_cong) auto
    also have "BookGroup x [] = ?F (xs @ [x]) ?k0" using e by simp
    finally have r: "groupsStep x m
        = map (\<lambda>k. (k, ?F (xs @ [x]) k)) ?ks @ [(?k0, ?F (xs @ [x]) ?k0)]" .
    have "rev (remdups (rev (map identityKey (xs @ [x])))) = ?ks @ [?k0]" using False by simp
    with r show ?thesis by (simp only: map_append list.map)
  qed
qed

lemma groups_closed_form:
  "fold groupsStep books []
     = map (\<lambda>k. (k, BookGroup (hd (filter (\<lambda>b. identityKey b = k) books))
                               (tl (filter (\<lambda>b. identityKey b = k) books))))
         (rev (remdups (rev (map identityKey books))))"
proof (induction books rule: rev_induct)
  case Nil
  then show ?case by simp
next
  case (snoc x xs)
  have "fold groupsStep (xs @ [x]) [] = groupsStep x (fold groupsStep xs [])" by simp
  also have "\<dots> = map (\<lambda>k. (k, BookGroup (hd (filter (\<lambda>b. identityKey b = k) (xs @ [x])))
                                   (tl (filter (\<lambda>b. identityKey b = k) (xs @ [x])))))
             (rev (remdups (rev (map identityKey (xs @ [x])))))"
    by (rule groupsStep_closed [OF snoc])
  finally show ?case .
qed

text \<open>
  What holds of the grouping: the groups are the classes of the key, in the order in
  which the keys first occur, each with its records in input order; and records with
  equal normalised title and equal normalised author have the same key.
\<close>

lemma groupedLibrary_by_key:
  "map variants (groupedLibrary books)
     = map (\<lambda>k. filter (\<lambda>b. identityKey b = k) books) (rev (remdups (rev (map identityKey books))))"
proof -
  have "variants (BookGroup (hd (filter (\<lambda>b. identityKey b = k) books))
                            (tl (filter (\<lambda>b. identityKey b = k) books)))
        = filter (\<lambda>b. identityKey b = k) books"
    if "k \<in> set (rev (remdups (rev (map identityKey books))))" for k
  proof -
    from that have "filter (\<lambda>b. identityKey b = k) books \<noteq> []"
      by (auto simp: filter_empty_conv)
    then show ?thesis by (simp add: variants_def)
  qed
  then show ?thesis
    by (simp add: groupedLibrary_def groups_closed_form comp_def)
qed

lemma same_identity_same_key:
  "toLowerCase (trim (title a)) = toLowerCase (trim (title b)) \<Longrightarrow>
   toLowerCase (trim (author a)) = toLowerCase (trim (author b)) \<Longrightarrow>
   identityKey a = identityKey b"
  by (simp add: identityKey_def)

end
